theory Spec2Isabelle
  imports Main "HOL-Library.Word"
begin

unbundle bit_operations_syntax

section \<open>The HTML image extractor (extract\_images.py)\<close>

text \<open>
  The script scans a text for \<open>data:image/...;base64,...\<close> URIs with one regular
  expression, writes each decoded payload to a numbered file and puts a relative
  reference in its place. The embedding follows the script function by function:
  the regular expression becomes a matcher on character lists, \<open>re.sub\<close> a
  left-to-right scan, the closure counter and the effects (files written, lines
  printed) a state record that is passed along. A text is a list of characters; the
  pattern looks at ASCII characters only, and the scan copies every other character.
  What comes from outside the script (the decoder of the standard library, the file
  system) is an environment given to the functions, and an exception that leaves a
  function is a value of its result.
\<close>

subsection \<open>The pattern\<close>

text \<open>
  \<^verbatim>\<open>pattern = r'data:image/(png|jpeg|jpg|gif|webp|svg\+xml);base64,([A-Za-z0-9+/=]+)'\<close>
\<close>

type_synonym byte = "8 word"
type_synonym bytes = "byte list"

fun strip_prefix :: "string \<Rightarrow> string \<Rightarrow> string option" where
  "strip_prefix [] s = Some s"
| "strip_prefix (c # cs) [] = None"
| "strip_prefix (c # cs) (d # ds) = (if c = d then strip_prefix cs ds else None)"

definition in_range :: "char \<Rightarrow> char \<Rightarrow> char \<Rightarrow> bool" where
  "in_range lo hi c = ((of_char lo :: nat) \<le> of_char c \<and> (of_char c :: nat) \<le> of_char hi)"

text \<open>The character class \<^verbatim>\<open>[A-Za-z0-9+/=]\<close>.\<close>

definition base64_char :: "char \<Rightarrow> bool" where
  "base64_char c =
     (in_range CHR ''A'' CHR ''Z'' c \<or> in_range CHR ''a'' CHR ''z'' c \<or>
      in_range CHR ''0'' CHR ''9'' c \<or> c = CHR ''+'' \<or> c = CHR ''/'' \<or> c = CHR ''='')"

text \<open>The alternatives of group 1, in the order the pattern lists them.\<close>

definition image_subtypes :: "string list" where
  "image_subtypes = [''png'', ''jpeg'', ''jpg'', ''gif'', ''webp'', ''svg+xml'']"

text \<open>A match object: \<open>group(0)\<close>, \<open>group(1)\<close> and \<open>group(2)\<close>.\<close>

record re_match =
  group0 :: string
  group1 :: string
  group2 :: string

text \<open>
  Matching the part of the pattern after \<open>data:image/\<close>. The alternatives are tried in
  order; an alternative whose continuation \<open>;base64,\<close> or whose payload (one or more
  characters of the class, taken greedily) fails is given up for the next one, as the
  backtracking matcher does. The result is the match and the text after its end.
\<close>

fun match_alternatives :: "string list \<Rightarrow> string \<Rightarrow> (re_match \<times> string) option" where
  "match_alternatives [] s = None"
| "match_alternatives (a # as) s =
     (case strip_prefix (a @ '';base64,'') s of
        None \<Rightarrow> match_alternatives as s
      | Some r \<Rightarrow>
          (let payload = takeWhile base64_char r in
           if payload = [] then match_alternatives as s
           else Some (\<lparr>group0 = ''data:image/'' @ a @ '';base64,'' @ payload,
                       group1 = a, group2 = payload\<rparr>,
                      dropWhile base64_char r)))"

definition match_at :: "string \<Rightarrow> (re_match \<times> string) option" where
  "match_at s =
     (case strip_prefix ''data:image/'' s of
        None \<Rightarrow> None
      | Some r \<Rightarrow> match_alternatives image_subtypes r)"

subsection \<open>File names\<close>

text \<open>The format \<^verbatim>\<open>{image_count:04d}\<close>: decimal, padded with zeros to at least four digits.\<close>

definition digit_char :: "nat \<Rightarrow> char" where
  "digit_char d = ''0123456789'' ! d"

function decimal :: "nat \<Rightarrow> string" where
  "decimal n = (if n < 10 then [digit_char n] else decimal (n div 10) @ [digit_char (n mod 10)])"
  by pat_completeness auto
termination
  by (relation "measure id") auto

declare decimal.simps [simp del]

definition format_04d :: "nat \<Rightarrow> string" where
  "format_04d n = replicate (4 - length (decimal n)) CHR ''0'' @ decimal n"

text \<open>\<open>os.path.join\<close> with two arguments (posixpath).\<close>

definition os_path_join :: "string \<Rightarrow> string \<Rightarrow> string" where
  "os_path_join a b =
     (if b \<noteq> [] \<and> hd b = CHR ''/'' then b
      else if a = [] \<or> last a = CHR ''/'' then a @ b
      else a @ ''/'' @ b)"

subsection \<open>The environment and the state of a run\<close>

text \<open>
  What the script takes from outside: the standard library's \<open>base64.b64decode\<close>
  (\<open>None\<close> where it raises), and whether the file system lets a directory be made and a
  file be written. The theorems hold for every such environment.
\<close>

record env =
  b64decode :: "string \<Rightarrow> bytes option"
  can_write :: "string \<Rightarrow> bool"
  can_mkdir :: "string \<Rightarrow> bool"

text \<open>The lines the script prints; sizes are kept as byte counts.\<close>

datatype line =
    Extracting
  | Extracted string nat
  | ErrorExtracting nat
  | TotalExtracted nat

text \<open>
  The counter of the closure, the files written so far (path and contents, in the order
  of writing) and the lines printed so far.
\<close>

record run_state =
  image_count :: nat
  written :: "(string \<times> bytes) list"
  console :: "line list"

text \<open>The file system after a sequence of writes: a later write replaces an earlier one.\<close>

fun apply_writes :: "(string \<rightharpoonup> bytes) \<Rightarrow> (string \<times> bytes) list \<Rightarrow> (string \<rightharpoonup> bytes)" where
  "apply_writes fs [] = fs"
| "apply_writes fs ((p, d) # ws) = apply_writes (fs(p \<mapsto> d)) ws"

subsection \<open>replace\_base64 and extract\_base64\_images\<close>

definition file_name :: "nat \<Rightarrow> string \<Rightarrow> string" where
  "file_name n img_type =
     (let extension = (if img_type = ''svg+xml'' then ''svg'' else img_type)
      in ''image_'' @ format_04d n @ ''.'' @ extension)"

text \<open>
  The callback. The counter goes up first; the \<open>try\<close> block covers the decoding and the
  writing, and its handler prints and returns the matched text.
\<close>

definition replace_base64 :: "env \<Rightarrow> string \<Rightarrow> run_state \<Rightarrow> re_match \<Rightarrow> run_state \<times> string" where
  "replace_base64 e output_dir st m =
     (let n = image_count st + 1;
          st1 = st\<lparr>image_count := n\<rparr>;
          filename = file_name n (group1 m);
          filepath = os_path_join output_dir filename
      in case b64decode e (group2 m) of
           None \<Rightarrow> (st1\<lparr>console := console st1 @ [ErrorExtracting n]\<rparr>, group0 m)
         | Some image_data \<Rightarrow>
             if can_write e filepath
             then (st1\<lparr>written := written st1 @ [(filepath, image_data)],
                        console := console st1 @ [Extracted filename (length image_data)]\<rparr>,
                   ''./'' @ output_dir @ ''/'' @ filename)
             else (st1\<lparr>console := console st1 @ [ErrorExtracting n]\<rparr>, group0 m))"

text \<open>
  \<open>re.sub(pattern, replace_base64, html_content)\<close>: at each position the pattern is
  tried; a match is replaced by what the callback returns and the scan goes on after
  the match, otherwise the character is copied and the scan moves one character on.
\<close>

function re_sub :: "env \<Rightarrow> string \<Rightarrow> run_state \<Rightarrow> string \<Rightarrow> run_state \<times> string" where
  "re_sub e output_dir st [] = (st, [])"
| "re_sub e output_dir st (c # cs) =
     (case match_at (c # cs) of
        None \<Rightarrow>
          (case re_sub e output_dir st cs of (st', out) \<Rightarrow> (st', c # out))
      | Some (m, rest) \<Rightarrow>
          (case replace_base64 e output_dir st m of
             (st1, repl) \<Rightarrow>
               (case re_sub e output_dir st1 rest of (st2, out) \<Rightarrow> (st2, repl @ out))))"
  by pat_completeness auto
termination
proof -
  have strip: "strip_prefix p s = Some r \<Longrightarrow> s = p @ r" for p s r
    by (induction p s rule: strip_prefix.induct) (auto split: if_splits)
  have alts: "match_alternatives as s = Some (m, rest) \<Longrightarrow> length rest \<le> length s"
    for as s m rest
  proof (induction as)
    case Nil
    then show ?case by simp
  next
    case (Cons a as)
    show ?case
    proof (cases "strip_prefix (a @ '';base64,'') s")
      case None
      with Cons show ?thesis by simp
    next
      case (Some r)
      then have s: "s = (a @ '';base64,'') @ r"
        by (rule strip)
      have "length (dropWhile base64_char r) \<le> length r"
        by (rule length_dropWhile_le)
      with Cons Some s show ?thesis
        by (auto simp: Let_def split: if_splits)
    qed
  qed
  have shorter: "match_at s = Some (m, rest) \<Longrightarrow> length rest < length s" for s m rest
    unfolding match_at_def
    by (auto split: option.splits dest!: alts strip)
  show ?thesis
    by (relation "measure (\<lambda>(e, output_dir, st, s). length s)") (auto dest: shorter)
qed

datatype error = MkdirFailed

record run =
  modified_html :: string
  final :: run_state

definition extract_base64_images :: "env \<Rightarrow> string \<Rightarrow> string \<Rightarrow> error + run" where
  "extract_base64_images e html_content output_dir =
     (if \<not> can_mkdir e output_dir then Inl MkdirFailed
      else
        (case re_sub e output_dir \<lparr>image_count = 0, written = [], console = [Extracting]\<rparr>
                html_content of
           (st, out) \<Rightarrow>
             Inr \<lparr>modified_html = out,
                  final = st\<lparr>console := console st @ [TotalExtracted (image_count st)]\<rparr>\<rparr>))"

text \<open>
  The matches of the pattern in a text, in scan order (\<open>re.finditer\<close>): the positions at
  which \<open>re.sub\<close> calls the callback.
\<close>

function find_all :: "string \<Rightarrow> re_match list" where
  "find_all [] = []"
| "find_all (c # cs) =
     (case match_at (c # cs) of
        None \<Rightarrow> find_all cs
      | Some (m, rest) \<Rightarrow> m # find_all rest)"
  by pat_completeness auto
termination
proof -
  have strip: "strip_prefix p s = Some r \<Longrightarrow> s = p @ r" for p s r
    by (induction p s rule: strip_prefix.induct) (auto split: if_splits)
  have alts: "match_alternatives as s = Some (m, rest) \<Longrightarrow> length rest \<le> length s"
    for as s m rest
  proof (induction as)
    case Nil
    then show ?case by simp
  next
    case (Cons a as)
    show ?case
    proof (cases "strip_prefix (a @ '';base64,'') s")
      case None
      with Cons show ?thesis by simp
    next
      case (Some r)
      then have s: "s = (a @ '';base64,'') @ r"
        by (rule strip)
      have "length (dropWhile base64_char r) \<le> length r"
        by (rule length_dropWhile_le)
      with Cons Some s show ?thesis
        by (auto simp: Let_def split: if_splits)
    qed
  qed
  have shorter: "match_at s = Some (m, rest) \<Longrightarrow> length rest < length s" for s m rest
    unfolding match_at_def
    by (auto split: option.splits dest!: alts strip)
  show ?thesis
    by (relation "measure length") (auto dest: shorter)
qed

subsection \<open>The decoder of the standard library\<close>

text \<open>
  \<open>base64.b64decode(s)\<close> with its default \<open>validate=False\<close>, as CPython (3.11 and
  later) computes it: a string is first encoded as ASCII, then
  \<open>binascii.a2b_base64\<close> runs over it in its non-strict mode. Characters outside the
  alphabet are skipped; a \<open>=\<close> that completes a group of four ends the decoding; a
  group left incomplete at the end of the input is the error
  \<open>binascii.Error\<close> (here \<open>None\<close>). It is the decoder of the concrete runs below.
\<close>

definition table_a2b_base64 :: "char \<Rightarrow> byte option" where
  "table_a2b_base64 c =
     (if in_range CHR ''A'' CHR ''Z'' c then Some (of_char c - 65)
      else if in_range CHR ''a'' CHR ''z'' c then Some (of_char c - 71)
      else if in_range CHR ''0'' CHR ''9'' c then Some (of_char c + 4)
      else if c = CHR ''+'' then Some 62
      else if c = CHR ''/'' then Some 63
      else None)"

record a2b_state =
  quad_pos :: nat
  leftchar :: byte
  pads :: nat
  bin_data :: bytes

fun a2b_loop :: "a2b_state \<Rightarrow> string \<Rightarrow> bytes option" where
  "a2b_loop s [] = (if quad_pos s \<noteq> 0 then None else Some (bin_data s))"
| "a2b_loop s (c # cs) =
     (if c = CHR ''='' then
        (if quad_pos s \<ge> 2 then
           (if quad_pos s + (pads s + 1) \<ge> 4 then Some (bin_data s)
            else a2b_loop (s\<lparr>pads := pads s + 1\<rparr>) cs)
         else a2b_loop s cs)
      else
        (case table_a2b_base64 c of
           None \<Rightarrow> a2b_loop s cs
         | Some this_ch \<Rightarrow>
             (if quad_pos s = 0 then
                a2b_loop (s\<lparr>pads := 0, quad_pos := 1, leftchar := this_ch\<rparr>) cs
              else if quad_pos s = 1 then
                a2b_loop (s\<lparr>pads := 0, quad_pos := 2,
                            bin_data := bin_data s @ [push_bit 2 (leftchar s) OR drop_bit 4 this_ch],
                            leftchar := this_ch AND 0x0f\<rparr>) cs
              else if quad_pos s = 2 then
                a2b_loop (s\<lparr>pads := 0, quad_pos := 3,
                            bin_data := bin_data s @ [push_bit 4 (leftchar s) OR drop_bit 2 this_ch],
                            leftchar := this_ch AND 0x03\<rparr>) cs
              else
                a2b_loop (s\<lparr>pads := 0, quad_pos := 0,
                            bin_data := bin_data s @ [push_bit 6 (leftchar s) OR this_ch],
                            leftchar := 0\<rparr>) cs)))"

definition a2b_base64 :: "string \<Rightarrow> bytes option" where
  "a2b_base64 s = a2b_loop \<lparr>quad_pos = 0, leftchar = 0, pads = 0, bin_data = []\<rparr> s"

definition py_b64decode :: "string \<Rightarrow> bytes option" where
  "py_b64decode s =
     (if list_ex (\<lambda>c. (of_char c :: nat) \<ge> 128) s then None else a2b_base64 s)"

text \<open>An environment in which every directory can be made and every file written.\<close>

definition std_env :: env where
  "std_env = \<lparr>b64decode = py_b64decode, can_write = (\<lambda>p. True), can_mkdir = (\<lambda>p. True)\<rparr>"

subsection \<open>process\_html\_file\<close>

text \<open>
  The parts of \<open>pathlib\<close> the script uses (PurePosixPath): the components of a path
  are the pieces between slashes, without the empty ones and the single dots; \<open>name\<close>
  is the last component; \<open>suffix\<close> starts at the last dot of the name, unless that dot
  is the first or the last character of the name; \<open>stem\<close> is the name without the
  suffix; \<open>parent\<close> is the path without its last component, printed as \<open>.\<close> when
  nothing is left of a relative path.
\<close>

fun split_on :: "char \<Rightarrow> string \<Rightarrow> string list" where
  "split_on sep [] = [[]]"
| "split_on sep (c # cs) =
     (if c = sep then [] # split_on sep cs
      else (case split_on sep cs of
              [] \<Rightarrow> [[c]]
            | p # ps \<Rightarrow> (c # p) # ps))"

definition path_parts :: "string \<Rightarrow> string list" where
  "path_parts s = filter (\<lambda>p. p \<noteq> [] \<and> p \<noteq> ''.'') (split_on CHR ''/'' s)"

definition path_name :: "string \<Rightarrow> string" where
  "path_name s = (if path_parts s = [] then [] else last (path_parts s))"

text \<open>\<open>name.rfind('.')\<close>, where it is not \<open>-1\<close>.\<close>

definition rfind_dot :: "string \<Rightarrow> nat option" where
  "rfind_dot name =
     (if CHR ''.'' \<in> set name
      then Some (length name - 1 - length (takeWhile (\<lambda>c. c \<noteq> CHR ''.'') (rev name)))
      else None)"

definition path_suffix :: "string \<Rightarrow> string" where
  "path_suffix s =
     (let name = path_name s in
      case rfind_dot name of
        None \<Rightarrow> []
      | Some i \<Rightarrow> if 0 < i \<and> i < length name - 1 then drop i name else [])"

definition path_stem :: "string \<Rightarrow> string" where
  "path_stem s =
     (let name = path_name s in
      case rfind_dot name of
        None \<Rightarrow> name
      | Some i \<Rightarrow> if 0 < i \<and> i < length name - 1 then take i name else name)"

fun join_with :: "string \<Rightarrow> string list \<Rightarrow> string" where
  "join_with sep [] = []"
| "join_with sep [p] = p"
| "join_with sep (p # q # ps) = p @ sep @ join_with sep (q # ps)"

definition path_parent :: "string \<Rightarrow> string" where
  "path_parent s =
     (let body = join_with ''/'' (butlast (path_parts s)) in
      if s \<noteq> [] \<and> hd s = CHR ''/'' then ''/'' @ body
      else if body = [] then ''.''
      else body)"

text \<open>
  What \<open>process_html_file\<close> takes from the file system: whether the input exists, its
  size, and its text as \<open>open(...).read()\<close> returns it (UTF-8, then Latin-1 when that
  fails; \<open>None\<close> where opening or reading raises).
\<close>

record file_env =
  path_exists :: "string \<Rightarrow> bool"
  stat_size :: "string \<Rightarrow> nat"
  read_text :: "string \<Rightarrow> string option"

datatype outcome =
    Completed
  | NotFound
  | ReadError
  | ExtractError error
  | WriteError
  | ZeroDivisionError

text \<open>
  The result of a call: how it ended, the run of the extractor if it was reached, and
  the output file (path as given to \<open>Path\<close>, and text) if it was written. The size
  report divides by the size of the input, after the output has been written.
\<close>

record process_result =
  outcome :: outcome
  extraction :: "run option"
  html_written :: "(string \<times> string) option"

definition default_output_file :: "string \<Rightarrow> string" where
  "default_output_file input_file = path_stem input_file @ ''_optimized'' @ path_suffix input_file"

definition process_html_file ::
  "file_env \<Rightarrow> env \<Rightarrow> string \<Rightarrow> string option \<Rightarrow> process_result" where
  "process_html_file fe e input_file output_file_arg =
     (if \<not> path_exists fe input_file then
        \<lparr>outcome = NotFound, extraction = None, html_written = None\<rparr>
      else
        (let output_file = (case output_file_arg of
                              None \<Rightarrow> default_output_file input_file
                            | Some f \<Rightarrow> f);
             original_size = stat_size fe input_file
         in case read_text fe input_file of
              None \<Rightarrow> \<lparr>outcome = ReadError, extraction = None, html_written = None\<rparr>
            | Some html_content \<Rightarrow>
                (case extract_base64_images e html_content ''images'' of
                   Inl err \<Rightarrow>
                     \<lparr>outcome = ExtractError err, extraction = None, html_written = None\<rparr>
                 | Inr r \<Rightarrow>
                     if \<not> can_write e output_file then
                       \<lparr>outcome = WriteError, extraction = Some r, html_written = None\<rparr>
                     else if original_size = 0 then
                       \<lparr>outcome = ZeroDivisionError, extraction = Some r,
                        html_written = Some (output_file, modified_html r)\<rparr>
                     else
                       \<lparr>outcome = Completed, extraction = Some r,
                        html_written = Some (output_file, modified_html r)\<rparr>)))"

subsection \<open>Notions for stating the properties\<close>

text \<open>
  The file that the call of the callback with counter value \<open>n\<close> writes for the match
  \<open>m\<close>: its path and contents if the payload decodes and the file can be written,
  nothing otherwise.
\<close>

definition file_of_match :: "env \<Rightarrow> string \<Rightarrow> nat \<Rightarrow> re_match \<Rightarrow> (string \<times> bytes) option" where
  "file_of_match e output_dir n m =
     (case b64decode e (group2 m) of
        None \<Rightarrow> None
      | Some image_data \<Rightarrow>
          if can_write e (os_path_join output_dir (file_name n (group1 m)))
          then Some (os_path_join output_dir (file_name n (group1 m)), image_data)
          else None)"

text \<open>
  The regions of a text outside the matches, in order: the text before the first match,
  the text between one match and the next, and the text after the last match. They are
  one more than the matches.
\<close>

function gaps :: "string \<Rightarrow> string list" where
  "gaps [] = [[]]"
| "gaps (c # cs) =
     (case match_at (c # cs) of
        None \<Rightarrow> (case gaps cs of [] \<Rightarrow> [[c]] | g # gs \<Rightarrow> (c # g) # gs)
      | Some (m, rest) \<Rightarrow> [] # gaps rest)"
  by pat_completeness auto
termination
proof -
  have strip: "strip_prefix p s = Some r \<Longrightarrow> s = p @ r" for p s r
    by (induction p s rule: strip_prefix.induct) (auto split: if_splits)
  have alts: "match_alternatives as s = Some (m, rest) \<Longrightarrow> length rest \<le> length s"
    for as s m rest
  proof (induction as)
    case Nil
    then show ?case by simp
  next
    case (Cons a as)
    show ?case
    proof (cases "strip_prefix (a @ '';base64,'') s")
      case None
      with Cons show ?thesis by simp
    next
      case (Some r)
      then have s: "s = (a @ '';base64,'') @ r"
        by (rule strip)
      have "length (dropWhile base64_char r) \<le> length r"
        by (rule length_dropWhile_le)
      with Cons Some s show ?thesis
        by (auto simp: Let_def split: if_splits)
    qed
  qed
  have shorter: "match_at s = Some (m, rest) \<Longrightarrow> length rest < length s" for s m rest
    unfolding match_at_def
    by (auto split: option.splits dest!: alts strip)
  show ?thesis
    by (relation "measure length") (auto dest: shorter)
qed

text \<open>
  Putting regions and spans together again: the first region, the first span, the
  second region, the second span, and so on.
\<close>

fun weave :: "string list \<Rightarrow> string list \<Rightarrow> string" where
  "weave [] xs = concat xs"
| "weave (g # gs) [] = g @ concat gs"
| "weave (g # gs) (x # xs) = g @ x @ weave gs xs"

text \<open>
  What stands in the output for the match \<open>m\<close> met with counter value \<open>n\<close>: the
  reference to its file if the file was written, the matched text itself otherwise.
\<close>

definition replacement :: "env \<Rightarrow> string \<Rightarrow> nat \<Rightarrow> re_match \<Rightarrow> string" where
  "replacement e output_dir n m =
     (case file_of_match e output_dir n m of
        None \<Rightarrow> group0 m
      | Some f \<Rightarrow> ''./'' @ output_dir @ ''/'' @ file_name n (group1 m))"

text \<open>A text that has no data URI of a recognised subtype with a payload in it.\<close>

definition no_data_uri :: "string \<Rightarrow> bool" where
  "no_data_uri html \<longleftrightarrow>
     \<not> (\<exists>pre t p post. html = pre @ ''data:image/'' @ t @ '';base64,'' @ p @ post \<and>
          t \<in> set image_subtypes \<and> p \<noteq> [] \<and> list_all base64_char p)"

text \<open>Reading a string of decimal digits back as a number.\<close>

definition decimal_value :: "string \<Rightarrow> nat" where
  "decimal_value s = foldl (\<lambda>a c. 10 * a + (of_char c - 48)) 0 s"

text \<open>A file system that holds one text file, of ASCII characters, at the given path.\<close>

definition single_file :: "string \<Rightarrow> string \<Rightarrow> file_env" where
  "single_file path content =
     \<lparr>path_exists = (\<lambda>p. p = path),
      stat_size = (\<lambda>p. length content),
      read_text = (\<lambda>p. if p = path then Some content else None)\<rparr>"

section \<open>Lemmas about the matcher, the scan and the file names\<close>

lemma strip_prefix_iff: "strip_prefix p s = Some r \<longleftrightarrow> s = p @ r"
  by (induction p s rule: strip_prefix.induct) auto

lemma strip_prefix_append [simp]: "strip_prefix p (p @ r) = Some r"
  by (simp add: strip_prefix_iff)

lemma takeWhile_all: "list_all P (takeWhile P xs)"
  by (induction xs) auto

lemma dropWhile_hd: "dropWhile P xs = [] \<or> \<not> P (hd (dropWhile P xs))"
  using hd_dropWhile by blast

lemma match_alternatives_SomeD:
  "match_alternatives as s = Some (m, rest) \<Longrightarrow>
     \<exists>a p. a \<in> set as \<and> p \<noteq> [] \<and> list_all base64_char p \<and>
           s = a @ '';base64,'' @ p @ rest \<and>
           (rest = [] \<or> \<not> base64_char (hd rest)) \<and>
           m = \<lparr>group0 = ''data:image/'' @ a @ '';base64,'' @ p, group1 = a, group2 = p\<rparr>"
proof (induction as)
  case Nil
  then show ?case by simp
next
  case (Cons a as)
  show ?case
  proof (cases "strip_prefix (a @ '';base64,'') s")
    case None
    with Cons show ?thesis by auto
  next
    case (Some r)
    then have s: "s = a @ '';base64,'' @ r"
      by (simp add: strip_prefix_iff)
    show ?thesis
    proof (cases "takeWhile base64_char r = []")
      case True
      with Cons Some show ?thesis by auto
    next
      case False
      with Cons.prems Some
      have m: "m = \<lparr>group0 = ''data:image/'' @ a @ '';base64,'' @ takeWhile base64_char r,
                     group1 = a, group2 = takeWhile base64_char r\<rparr>"
        and rest: "rest = dropWhile base64_char r"
        by (simp_all add: Let_def)
      have "r = takeWhile base64_char r @ rest"
        by (simp add: rest)
      with s have "s = a @ '';base64,'' @ takeWhile base64_char r @ rest"
        by simp
      moreover have "rest = [] \<or> \<not> base64_char (hd rest)"
        unfolding rest by (rule dropWhile_hd)
      ultimately show ?thesis
        using False m takeWhile_all [of base64_char r]
        by (intro exI [of _ a] exI [of _ "takeWhile base64_char r"]) simp
    qed
  qed
qed

lemma match_at_SomeD:
  assumes "match_at s = Some (m, rest)"
  shows "\<exists>t p. t \<in> set image_subtypes \<and> p \<noteq> [] \<and> list_all base64_char p \<and>
           s = group0 m @ rest \<and>
           (rest = [] \<or> \<not> base64_char (hd rest)) \<and>
           m = \<lparr>group0 = ''data:image/'' @ t @ '';base64,'' @ p, group1 = t, group2 = p\<rparr>"
proof -
  from assms obtain r where r: "s = ''data:image/'' @ r"
    and alts: "match_alternatives image_subtypes r = Some (m, rest)"
    by (auto simp: match_at_def strip_prefix_iff split: option.splits)
  from match_alternatives_SomeD [OF alts] r show ?thesis
    by auto
qed

lemma replace_base64_success:
  assumes "file_of_match e dir (Suc (image_count st)) m = Some (path, d)"
  shows "replace_base64 e dir st m =
           (st\<lparr>image_count := Suc (image_count st),
               written := written st @ [(path, d)],
               console := console st @
                  [Extracted (file_name (Suc (image_count st)) (group1 m)) (length d)]\<rparr>,
            ''./'' @ dir @ ''/'' @ file_name (Suc (image_count st)) (group1 m))"
  using assms
  by (auto simp: replace_base64_def file_of_match_def Let_def split: option.splits if_splits)

lemma replace_base64_failure:
  assumes "file_of_match e dir (Suc (image_count st)) m = None"
  shows "replace_base64 e dir st m =
           (st\<lparr>image_count := Suc (image_count st),
               console := console st @ [ErrorExtracting (Suc (image_count st))]\<rparr>,
            group0 m)"
  using assms
  by (auto simp: replace_base64_def file_of_match_def Let_def split: option.splits if_splits)

lemma replace_base64_cases:
  obtains (ok) path d where "file_of_match e dir (Suc (image_count st)) m = Some (path, d)"
    "replace_base64 e dir st m =
           (st\<lparr>image_count := Suc (image_count st),
               written := written st @ [(path, d)],
               console := console st @
                  [Extracted (file_name (Suc (image_count st)) (group1 m)) (length d)]\<rparr>,
            ''./'' @ dir @ ''/'' @ file_name (Suc (image_count st)) (group1 m))"
  | (fail) "file_of_match e dir (Suc (image_count st)) m = None"
    "replace_base64 e dir st m =
           (st\<lparr>image_count := Suc (image_count st),
               console := console st @ [ErrorExtracting (Suc (image_count st))]\<rparr>,
            group0 m)"
proof (cases "file_of_match e dir (Suc (image_count st)) m")
  case None
  then show ?thesis using fail replace_base64_failure by blast
next
  case (Some a)
  then show ?thesis using ok replace_base64_success by (cases a) blast
qed

lemma re_sub_count:
  "image_count (fst (re_sub e dir st s)) = image_count st + length (find_all s)"
proof (induction e dir st s rule: re_sub.induct)
  case (1 e dir st)
  then show ?case by simp
next
  case (2 e dir st c cs)
  show ?case
  proof (cases "match_at (c # cs)")
    case None
    with 2 show ?thesis by (simp add: case_prod_beta)
  next
    case (Some a)
    obtain m rest where a: "a = (m, rest)" by (cases a)
    obtain st1 repl where r: "replace_base64 e dir st m = (st1, repl)"
      by (cases "replace_base64 e dir st m")
    have c1: "image_count st1 = Suc (image_count st)"
      using r by (cases rule: replace_base64_cases [of e dir st m]) auto
    from 2(2) [OF Some [unfolded a] refl r [symmetric]]
    have "image_count (fst (re_sub e dir st1 rest)) = image_count st1 + length (find_all rest)" .
    with Some a r c1 show ?thesis by (simp add: case_prod_beta)
  qed
qed

lemma re_sub_written:
  "written (fst (re_sub e dir st s)) =
     written st @ List.map_filter (\<lambda>(n, m). file_of_match e dir n m)
                    (enumerate (Suc (image_count st)) (find_all s))"
proof (induction e dir st s rule: re_sub.induct)
  case (1 e dir st)
  then show ?case by (simp add: List.map_filter_simps)
next
  case (2 e dir st c cs)
  show ?case
  proof (cases "match_at (c # cs)")
    case None
    with 2 show ?thesis by (simp add: case_prod_beta)
  next
    case (Some a)
    obtain m rest where a: "a = (m, rest)" by (cases a)
    obtain st1 repl where r: "replace_base64 e dir st m = (st1, repl)"
      by (cases "replace_base64 e dir st m")
    note IH = 2(2) [OF Some [unfolded a] refl r [symmetric]]
    show ?thesis
    proof (cases rule: replace_base64_cases [of e dir st m])
      case (ok path d)
      with r have "st1 = st\<lparr>image_count := Suc (image_count st),
               written := written st @ [(path, d)],
               console := console st @
                  [Extracted (file_name (Suc (image_count st)) (group1 m)) (length d)]\<rparr>"
        by simp
      with IH Some a r ok(1) show ?thesis
        by (simp add: List.map_filter_simps case_prod_beta)
    next
      case fail
      with r have "st1 = st\<lparr>image_count := Suc (image_count st),
               console := console st @ [ErrorExtracting (Suc (image_count st))]\<rparr>"
        by simp
      with IH Some a r fail(1) show ?thesis
        by (simp add: List.map_filter_simps case_prod_beta)
    qed
  qed
qed

lemma digit_char_cases:
  assumes "d < 10"
  shows "d = 0 \<or> d = 1 \<or> d = 2 \<or> d = 3 \<or> d = 4 \<or> d = 5 \<or> d = 6 \<or> d = 7 \<or> d = 8 \<or> d = (9::nat)"
  using assms by arith

lemma digit_char_value: "d < 10 \<Longrightarrow> (of_char (digit_char d) :: nat) = 48 + d"
  using digit_char_cases [of d] by (auto simp: digit_char_def)

lemma digit_char_not_dot: "d < 10 \<Longrightarrow> digit_char d \<noteq> CHR ''.''"
  using digit_char_cases [of d] by (auto simp: digit_char_def)

lemma decimal_value_snoc:
  "decimal_value (s @ [c]) = 10 * decimal_value s + (of_char c - 48)"
  by (simp add: decimal_value_def)

lemma decimal_value_decimal: "decimal_value (decimal n) = n"
proof (induction n rule: decimal.induct)
  case (1 n)
  show ?case
  proof (cases "n < 10")
    case True
    then show ?thesis
      by (subst decimal.simps) (simp add: decimal_value_def digit_char_value)
  next
    case False
    have "n mod 10 < 10" by simp
    then have "(of_char (digit_char (n mod 10)) :: nat) - 48 = n mod 10"
      by (simp add: digit_char_value)
    with False 1 show ?thesis
      by (subst decimal.simps) (simp add: decimal_value_snoc)
  qed
qed

lemma decimal_no_dot: "CHR ''.'' \<notin> set (decimal n)"
proof (induction n rule: decimal.induct)
  case (1 n)
  show ?case
  proof (cases "n < 10")
    case True
    then show ?thesis
      using digit_char_not_dot [of n] by (subst decimal.simps) auto
  next
    case False
    have "n mod 10 < 10" by simp
    then have "digit_char (n mod 10) \<noteq> CHR ''.''"
      by (rule digit_char_not_dot)
    with False 1 show ?thesis
      by (subst decimal.simps) auto
  qed
qed

lemma decimal_value_zeros: "decimal_value (replicate k CHR ''0'' @ s) = decimal_value s"
proof -
  have "foldl (\<lambda>a c. 10 * a + ((of_char c :: nat) - 48)) 0 (replicate k CHR ''0'') = 0"
    by (induction k) simp_all
  then show ?thesis by (simp add: decimal_value_def)
qed

lemma decimal_value_format: "decimal_value (format_04d n) = n"
  by (simp add: format_04d_def decimal_value_zeros decimal_value_decimal)

lemma format_no_dot: "CHR ''.'' \<notin> set (format_04d n)"
  using decimal_no_dot [of n] by (auto simp: format_04d_def)

lemma takeWhile_until:
  "x \<notin> set xs \<Longrightarrow> takeWhile (\<lambda>c. c \<noteq> x) (xs @ x # ys) = xs"
  by (induction xs) auto

lemma file_name_inj:
  assumes "file_name n t = file_name n' t'"
  shows "n = n'"
proof -
  from assms obtain x x' where
    eq: "format_04d n @ CHR ''.'' # x = format_04d n' @ CHR ''.'' # x'"
    by (auto simp: file_name_def Let_def)
  have "takeWhile (\<lambda>c. c \<noteq> CHR ''.'') (format_04d n @ CHR ''.'' # x) = format_04d n"
    by (rule takeWhile_until [OF format_no_dot])
  moreover
  have "takeWhile (\<lambda>c. c \<noteq> CHR ''.'') (format_04d n' @ CHR ''.'' # x') = format_04d n'"
    by (rule takeWhile_until [OF format_no_dot])
  ultimately have "format_04d n = format_04d n'"
    using eq by simp
  then have "decimal_value (format_04d n) = decimal_value (format_04d n')"
    by simp
  then show ?thesis by (simp add: decimal_value_format)
qed

lemma os_path_join_file_name:
  "os_path_join dir (file_name n t) =
     (if dir = [] \<or> last dir = CHR ''/'' then dir else dir @ ''/'') @ file_name n t"
  by (simp add: os_path_join_def file_name_def Let_def)

lemma path_inj:
  "os_path_join dir (file_name n t) = os_path_join dir (file_name n' t') \<Longrightarrow> n = n'"
  by (auto simp: os_path_join_file_name dest: file_name_inj)

lemma file_of_match_path:
  "file_of_match e dir n m = Some (p, d) \<Longrightarrow> p = os_path_join dir (file_name n (group1 m))"
  by (auto simp: file_of_match_def split: option.splits if_splits)

lemma files_from:
  "(p, d) \<in> set (List.map_filter (\<lambda>(n, m). file_of_match e dir n m) (enumerate k ms)) \<Longrightarrow>
     \<exists>n t. k \<le> n \<and> n < k + length ms \<and> p = os_path_join dir (file_name n t)"
proof (induction ms arbitrary: k)
  case Nil
  then show ?case by (simp add: List.map_filter_simps)
next
  case (Cons m ms)
  show ?case
  proof (cases "(p, d) \<in> set (List.map_filter (\<lambda>(n, m). file_of_match e dir n m)
                   (enumerate (Suc k) ms))")
    case True
    from Cons.IH [OF True] show ?thesis
      by (auto intro: Suc_leD)
  next
    case False
    with Cons.prems have "file_of_match e dir k m = Some (p, d)"
      by (auto simp: List.map_filter_simps split: option.splits)
    then have "p = os_path_join dir (file_name k (group1 m))"
      by (rule file_of_match_path)
    then show ?thesis by auto
  qed
qed

lemma files_distinct:
  "distinct (map fst (List.map_filter (\<lambda>(n, m). file_of_match e dir n m) (enumerate k ms)))"
proof (induction ms arbitrary: k)
  case Nil
  then show ?case by (simp add: List.map_filter_simps)
next
  case (Cons m ms)
  show ?case
  proof (cases "file_of_match e dir k m")
    case None
    with Cons.IH [of "Suc k"] show ?thesis
      by (simp add: List.map_filter_simps)
  next
    case (Some a)
    obtain p d where a: "a = (p, d)" by (cases a)
    have p: "p = os_path_join dir (file_name k (group1 m))"
      using Some a by (simp add: file_of_match_path)
    have "p \<notin> fst ` set (List.map_filter (\<lambda>(n, m). file_of_match e dir n m)
                   (enumerate (Suc k) ms))"
    proof
      assume "p \<in> fst ` set (List.map_filter (\<lambda>(n, m). file_of_match e dir n m)
                   (enumerate (Suc k) ms))"
      then obtain d' where "(p, d') \<in> set (List.map_filter (\<lambda>(n, m). file_of_match e dir n m)
                   (enumerate (Suc k) ms))"
        by auto
      from files_from [OF this] obtain n t where "Suc k \<le> n"
        "p = os_path_join dir (file_name n t)"
        by blast
      with p have "k = n" by (auto dest: path_inj)
      with \<open>Suc k \<le> n\<close> show False by simp
    qed
    with Cons.IH [of "Suc k"] Some a show ?thesis
      by (simp add: List.map_filter_simps)
  qed
qed

lemma takeWhile_run:
  "list_all P p \<Longrightarrow> rest = [] \<or> \<not> P (hd rest) \<Longrightarrow> takeWhile P (p @ rest) = p"
  by (induction p) (auto simp: takeWhile_eq_Nil_iff neq_Nil_conv)

lemma dropWhile_run:
  "list_all P p \<Longrightarrow> rest = [] \<or> \<not> P (hd rest) \<Longrightarrow> dropWhile P (p @ rest) = rest"
  by (induction p) (auto simp: dropWhile_eq_self_iff)

lemma until_semicolon_eq:
  assumes "CHR '';'' \<notin> set a" "CHR '';'' \<notin> set t" "a @ CHR '';'' # x = t @ CHR '';'' # y"
  shows "a = t"
proof -
  have "takeWhile (\<lambda>c. c \<noteq> CHR '';'') (a @ CHR '';'' # x) = a"
    by (rule takeWhile_until [OF assms(1)])
  moreover have "takeWhile (\<lambda>c. c \<noteq> CHR '';'') (t @ CHR '';'' # y) = t"
    by (rule takeWhile_until [OF assms(2)])
  ultimately show ?thesis using assms(3) by simp
qed

lemma strip_other_subtype:
  assumes "CHR '';'' \<notin> set a" "CHR '';'' \<notin> set t" "a \<noteq> t"
  shows "strip_prefix (a @ '';base64,'') (t @ '';base64,'' @ r) = None"
proof (cases "strip_prefix (a @ '';base64,'') (t @ '';base64,'' @ r)")
  case None
  then show ?thesis .
next
  case (Some r')
  then have "t @ '';base64,'' @ r = (a @ '';base64,'') @ r'"
    by (simp only: strip_prefix_iff)
  then have "a @ CHR '';'' # (''base64,'' @ r') = t @ CHR '';'' # (''base64,'' @ r)"
    by simp
  from until_semicolon_eq [OF assms(1,2) this] assms(3) show ?thesis by simp
qed

lemma match_alternatives_hit:
  assumes "p \<noteq> []" "list_all base64_char p" "rest = [] \<or> \<not> base64_char (hd rest)"
  shows "match_alternatives (a # as) (a @ '';base64,'' @ p @ rest) =
           Some (\<lparr>group0 = ''data:image/'' @ a @ '';base64,'' @ p, group1 = a, group2 = p\<rparr>, rest)"
proof -
  have "strip_prefix (a @ '';base64,'') (a @ '';base64,'' @ p @ rest) = Some (p @ rest)"
    by (simp add: strip_prefix_iff)
  with assms show ?thesis
    by (simp add: takeWhile_run dropWhile_run del: strip_prefix.simps)
qed

lemma match_alternatives_member:
  assumes p: "p \<noteq> []" "list_all base64_char p" "rest = [] \<or> \<not> base64_char (hd rest)"
    and t: "t \<in> set as" and semi: "\<forall>a \<in> set as. CHR '';'' \<notin> set a"
  shows "match_alternatives as (t @ '';base64,'' @ p @ rest) =
           Some (\<lparr>group0 = ''data:image/'' @ t @ '';base64,'' @ p, group1 = t, group2 = p\<rparr>, rest)"
  using t semi
proof (induction as)
  case Nil
  then show ?case by simp
next
  case (Cons a as)
  show ?case
  proof (cases "a = t")
    case True
    then show ?thesis using match_alternatives_hit [OF p] by simp
  next
    case False
    with Cons.prems have tas: "t \<in> set as" and "CHR '';'' \<notin> set a" "CHR '';'' \<notin> set t"
      by auto
    then have "strip_prefix (a @ '';base64,'') (t @ '';base64,'' @ p @ rest) = None"
      using False by (intro strip_other_subtype)
    then have "match_alternatives (a # as) (t @ '';base64,'' @ p @ rest) =
                 match_alternatives as (t @ '';base64,'' @ p @ rest)"
      by simp
    with Cons.IH [OF tas] Cons.prems(2) show ?thesis by simp
  qed
qed

lemma match_alternatives_other:
  assumes "t \<notin> set as" "CHR '';'' \<notin> set t" "\<forall>a \<in> set as. CHR '';'' \<notin> set a"
  shows "match_alternatives as (t @ '';base64,'' @ r) = None"
  using assms
proof (induction as)
  case Nil
  then show ?case by simp
next
  case (Cons a as)
  then have "strip_prefix (a @ '';base64,'') (t @ '';base64,'' @ r) = None"
    by (intro strip_other_subtype) auto
  with Cons show ?case by simp
qed

lemma subtypes_no_semicolon: "\<forall>a \<in> set image_subtypes. CHR '';'' \<notin> set a"
  by (simp add: image_subtypes_def)

lemma match_at_uri:
  assumes t: "t \<in> set image_subtypes"
    and p: "p \<noteq> []" "list_all base64_char p" "rest = [] \<or> \<not> base64_char (hd rest)"
  shows "match_at (''data:image/'' @ t @ '';base64,'' @ p @ rest) =
           Some (\<lparr>group0 = ''data:image/'' @ t @ '';base64,'' @ p, group1 = t, group2 = p\<rparr>, rest)"
  using match_alternatives_member [OF p t subtypes_no_semicolon]
  by (simp add: match_at_def)

lemma match_at_other_subtype:
  assumes "t \<notin> set image_subtypes" "CHR '';'' \<notin> set t"
  shows "match_at (''data:image/'' @ t @ '';base64,'' @ r) = None"
  using match_alternatives_other [OF assms subtypes_no_semicolon]
  by (simp add: match_at_def)

lemma match_at_prefix:
  "match_at u = Some x \<Longrightarrow> \<exists>r. u = ''data:image/'' @ r"
  by (auto simp: match_at_def strip_prefix_iff split: option.splits)

lemma re_sub_None:
  "match_at (c # cs) = None \<Longrightarrow>
     re_sub e dir st (c # cs) = (fst (re_sub e dir st cs), c # snd (re_sub e dir st cs))"
  by (simp add: case_prod_beta)

lemma re_sub_Some:
  "match_at (c # cs) = Some (m, rest) \<Longrightarrow>
     re_sub e dir st (c # cs) =
       (fst (re_sub e dir (fst (replace_base64 e dir st m)) rest),
        snd (replace_base64 e dir st m) @
        snd (re_sub e dir (fst (replace_base64 e dir st m)) rest))"
  by (simp add: case_prod_beta)

lemma re_sub_skip:
  "\<forall>k < length s. match_at (drop k (s @ post)) = None \<Longrightarrow>
     re_sub e dir st (s @ post) = (fst (re_sub e dir st post), s @ snd (re_sub e dir st post))"
proof (induction s)
  case Nil
  then show ?case by simp
next
  case (Cons c cs)
  from Cons.prems have "match_at (drop 0 ((c # cs) @ post)) = None"
    by blast
  then have here: "match_at (c # (cs @ post)) = None" by simp
  have "\<forall>k < length cs. match_at (drop k (cs @ post)) = None"
  proof (intro allI impI)
    fix k assume "k < length cs"
    then have "Suc k < length (c # cs)" by simp
    with Cons.prems have "match_at (drop (Suc k) ((c # cs) @ post)) = None" by blast
    then show "match_at (drop k (cs @ post)) = None" by simp
  qed
  from Cons.IH [OF this] here show ?case
    by (simp add: re_sub_None del: re_sub.simps)
qed

lemma find_all_skip:
  "\<forall>k < length s. match_at (drop k (s @ post)) = None \<Longrightarrow> find_all (s @ post) = find_all post"
proof (induction s)
  case Nil
  then show ?case by simp
next
  case (Cons c cs)
  from Cons.prems have "match_at (drop 0 ((c # cs) @ post)) = None"
    by blast
  then have here: "match_at (c # (cs @ post)) = None" by simp
  have "\<forall>k < length cs. match_at (drop k (cs @ post)) = None"
  proof (intro allI impI)
    fix k assume "k < length cs"
    then have "Suc k < length (c # cs)" by simp
    with Cons.prems have "match_at (drop (Suc k) ((c # cs) @ post)) = None" by blast
    then show "match_at (drop k (cs @ post)) = None" by simp
  qed
  from Cons.IH [OF this] here show ?case
    by simp
qed

lemma no_data_uri_no_match:
  assumes "no_data_uri html"
  shows "match_at (drop k html) = None"
proof (cases "match_at (drop k html)")
  case None
  then show ?thesis .
next
  case (Some a)
  obtain m rest where a: "a = (m, rest)" by (cases a)
  from match_at_SomeD [OF Some [unfolded a]] obtain t p where
    "t \<in> set image_subtypes" "p \<noteq> []" "list_all base64_char p"
    "drop k html = ''data:image/'' @ t @ '';base64,'' @ p @ rest"
    by auto
  moreover have "html = take k html @ drop k html" by simp
  ultimately have "\<exists>pre t p post. html = pre @ ''data:image/'' @ t @ '';base64,'' @ p @ post \<and>
          t \<in> set image_subtypes \<and> p \<noteq> [] \<and> list_all base64_char p"
    by metis
  with assms show ?thesis unfolding no_data_uri_def by blast
qed

lemma apply_writes_other:
  "p \<notin> fst ` set ws \<Longrightarrow> apply_writes fs ws p = fs p"
  by (induction fs ws rule: apply_writes.induct) auto

lemma file_name_first_png: "file_name (Suc 0) ''png'' = ''image_0001.png''"
  by code_simp

lemma no_data_uri_by_scan:
  assumes "\<forall>k < length html. match_at (drop k html) = None"
  shows "no_data_uri html"
  unfolding no_data_uri_def
proof
  assume "\<exists>pre t p post. html = pre @ ''data:image/'' @ t @ '';base64,'' @ p @ post \<and>
          t \<in> set image_subtypes \<and> p \<noteq> [] \<and> list_all base64_char p"
  then obtain pre t p post where html: "html = pre @ ''data:image/'' @ t @ '';base64,'' @ p @ post"
    and t: "t \<in> set image_subtypes" and p: "p \<noteq> []" "list_all base64_char p"
    by blast
  let ?q = "takeWhile base64_char (p @ post)" and ?rest = "dropWhile base64_char (p @ post)"
  from p have q: "?q \<noteq> []" by (cases p) auto
  have "match_at (''data:image/'' @ t @ '';base64,'' @ ?q @ ?rest) =
          Some (\<lparr>group0 = ''data:image/'' @ t @ '';base64,'' @ ?q, group1 = t, group2 = ?q\<rparr>, ?rest)"
    by (rule match_at_uri [OF t q takeWhile_all dropWhile_hd])
  then have "match_at (''data:image/'' @ t @ '';base64,'' @ p @ post) \<noteq> None"
    by (simp only: takeWhile_dropWhile_id) simp
  moreover have "drop (length pre) html = ''data:image/'' @ t @ '';base64,'' @ p @ post"
    unfolding html by (rule append_eq_conv_conj [THEN iffD1, THEN conjunct2, symmetric]) simp
  moreover have "length pre < length html" by (simp add: html)
  ultimately show False using assms by metis
qed

lemma png_match:
  assumes B: "B \<noteq> []" "list_all base64_char B"
    and post: "post = [] \<or> \<not> base64_char (hd post)"
  shows "match_at (CHR ''d'' # ''ata:image/png;base64,'' @ B @ post) =
           Some (\<lparr>group0 = ''data:image/png;base64,'' @ B, group1 = ''png'', group2 = B\<rparr>, post)"
proof -
  have png: "''png'' \<in> set image_subtypes" by (simp add: image_subtypes_def)
  from match_at_uri [OF png B post] show ?thesis by simp
qed

lemma first_png_step:
  assumes dec: "b64decode e B = Some X"
    and wr: "can_write e (os_path_join dir ''image_0001.png'')"
    and B: "B \<noteq> []" "list_all base64_char B"
    and post: "post = [] \<or> \<not> base64_char (hd post)"
  shows "re_sub e dir \<lparr>image_count = 0, written = [], console = [Extracting]\<rparr>
           (''data:image/png;base64,'' @ B @ post) =
         (fst (re_sub e dir
                 \<lparr>image_count = 1, written = [(os_path_join dir ''image_0001.png'', X)],
                  console = [Extracting, Extracted ''image_0001.png'' (length X)]\<rparr> post),
          ''./'' @ dir @ ''/image_0001.png'' @
          snd (re_sub e dir
                 \<lparr>image_count = 1, written = [(os_path_join dir ''image_0001.png'', X)],
                  console = [Extracting, Extracted ''image_0001.png'' (length X)]\<rparr> post))"
proof -
  let ?st0 = "\<lparr>image_count = 0, written = [], console = [Extracting]\<rparr>"
  let ?path = "os_path_join dir ''image_0001.png''"
  let ?st1 = "\<lparr>image_count = 1, written = [(?path, X)],
               console = [Extracting, Extracted ''image_0001.png'' (length X)]\<rparr>"
  let ?m = "\<lparr>group0 = ''data:image/png;base64,'' @ B, group1 = ''png'', group2 = B\<rparr>"
  note m = png_match [OF B post]
  have "file_of_match e dir (Suc (image_count ?st0)) ?m = Some (?path, X)"
    using dec wr by (simp add: file_of_match_def file_name_first_png)
  from replace_base64_success [OF this]
  have repl: "replace_base64 e dir ?st0 ?m = (?st1, ''./'' @ dir @ ''/image_0001.png'')"
    by (simp add: file_name_first_png)
  have "re_sub e dir ?st0 (CHR ''d'' # ''ata:image/png;base64,'' @ B @ post) =
          (fst (re_sub e dir ?st1 post),
           (''./'' @ dir @ ''/image_0001.png'') @ snd (re_sub e dir ?st1 post))"
    unfolding re_sub_Some [OF m, of e dir ?st0] repl fst_conv snd_conv ..
  then show ?thesis by (simp del: re_sub.simps)
qed

lemma later_paths_differ:
  "os_path_join dir ''image_0001.png'' \<notin>
     fst ` set (List.map_filter (\<lambda>(n, m). file_of_match e dir n m) (enumerate (Suc (Suc 0)) ms))"
proof
  let ?later = "List.map_filter (\<lambda>(n, m). file_of_match e dir n m) (enumerate (Suc (Suc 0)) ms)"
  assume "os_path_join dir ''image_0001.png'' \<in> fst ` set ?later"
  then obtain d where "(os_path_join dir ''image_0001.png'', d) \<in> set ?later" by auto
  from files_from [OF this] obtain n t where n: "Suc (Suc 0) \<le> n"
    "os_path_join dir ''image_0001.png'' = os_path_join dir (file_name n t)"
    by blast
  from n(2) have "os_path_join dir (file_name (Suc 0) ''png'') = os_path_join dir (file_name n t)"
    by (simp only: file_name_first_png)
  then have "Suc 0 = n" by (rule path_inj)
  with n(1) show False by simp
qed

lemma match_at_first_char:
  assumes "match_at (drop k u) = Some x"
  shows "k < length u \<and> u ! k = CHR ''d''"
proof -
  from match_at_prefix [OF assms] obtain r where r: "drop k u = ''data:image/'' @ r"
    by blast
  then have len: "0 < length (drop k u)" and c: "drop k u ! 0 = CHR ''d''"
    by simp_all
  from len have "k < length u" by simp
  moreover from this c have "u ! k = CHR ''d''"
    by (simp add: nth_drop)
  ultimately show ?thesis by simp
qed

lemma match_alternatives_empty_payload:
  assumes "post = [] \<or> \<not> base64_char (hd post)" "CHR '';'' \<notin> set t"
    "\<forall>a \<in> set as. CHR '';'' \<notin> set a"
  shows "match_alternatives as (t @ '';base64,'' @ post) = None"
  using assms(3)
proof (induction as)
  case Nil
  then show ?case by simp
next
  case (Cons a as)
  then have IH: "match_alternatives as (t @ '';base64,'' @ post) = None" by simp
  show ?case
  proof (cases "a = t")
    case True
    have "strip_prefix (t @ '';base64,'') (t @ '';base64,'' @ post) = Some post"
      by (simp add: strip_prefix_iff)
    moreover have "takeWhile base64_char post = []"
      using assms(1) by (cases post) auto
    ultimately show ?thesis using IH True
      by (simp del: strip_prefix.simps)
  next
    case False
    with Cons.prems assms(2)
    have "strip_prefix (a @ '';base64,'') (t @ '';base64,'' @ post) = None"
      by (intro strip_other_subtype) auto
    with IH show ?thesis by simp
  qed
qed

lemma subtype_chars:
  assumes "t \<in> set image_subtypes"
  shows "CHR '';'' \<notin> set t \<and> CHR ''d'' \<notin> set t"
  using assms by (auto simp: image_subtypes_def)

lemma list_all_upt: "list_all P [0..<n] \<Longrightarrow> \<forall>k<n. P k"
  by (simp add: list_all_iff)

lemma match_at_nonempty: "match_at s = Some x \<Longrightarrow> \<exists>c cs. s = c # cs"
  by (drule match_at_prefix) auto

lemma split_on_no_sep: "p \<in> set (split_on sep s) \<Longrightarrow> sep \<notin> set p"
  by (induction sep s arbitrary: p rule: split_on.induct) (auto split: if_splits list.splits)

lemma split_on_whole: "sep \<notin> set s \<Longrightarrow> split_on sep s = [s]"
  by (induction sep s rule: split_on.induct) auto

lemma path_name_no_slash: "CHR ''/'' \<notin> set (path_name s)"
proof (cases "path_parts s = []")
  case True
  then show ?thesis by (simp add: path_name_def)
next
  case False
  then have "last (path_parts s) \<in> set (path_parts s)" by simp
  then have "last (path_parts s) \<in> set (split_on CHR ''/'' s)"
    by (simp add: path_parts_def)
  then have "CHR ''/'' \<notin> set (last (path_parts s))" by (rule split_on_no_sep)
  with False show ?thesis by (simp add: path_name_def)
qed

lemma stem_suffix_name: "path_stem s @ path_suffix s = path_name s"
  by (simp add: path_stem_def path_suffix_def Let_def split: option.splits)

lemma default_output_no_slash: "CHR ''/'' \<notin> set (default_output_file f)"
proof -
  have "set (path_stem f) \<union> set (path_suffix f) = set (path_name f)"
    using stem_suffix_name [of f] by (metis set_append)
  with path_name_no_slash [of f] show ?thesis
    by (auto simp: default_output_file_def)
qed

lemma path_parent_bare: "CHR ''/'' \<notin> set x \<Longrightarrow> path_parent x = ''.''"
  by (cases x) (auto simp: path_parent_def path_parts_def split_on_whole Let_def)

lemma extract_Inr:
  "extract_base64_images e html dir = Inr r \<Longrightarrow>
     can_mkdir e dir \<and>
     modified_html r = snd (re_sub e dir \<lparr>image_count = 0, written = [], console = [Extracting]\<rparr> html) \<and>
     image_count (final r) =
       image_count (fst (re_sub e dir \<lparr>image_count = 0, written = [], console = [Extracting]\<rparr> html)) \<and>
     written (final r) =
       written (fst (re_sub e dir \<lparr>image_count = 0, written = [], console = [Extracting]\<rparr> html))"
  by (auto simp: extract_base64_images_def case_prod_beta split: if_splits)

lemma gaps_nonempty: "gaps s \<noteq> []"
  by (induction s rule: gaps.induct) (auto split: option.splits list.splits)

lemma weave_cons_char: "weave ((c # g) # gs) xs = c # weave (g # gs) xs"
  by (cases xs) simp_all

lemma gaps_None:
  "match_at (c # cs) = None \<Longrightarrow> gaps (c # cs) = (c # hd (gaps cs)) # tl (gaps cs)"
  using gaps_nonempty [of cs] by (cases "gaps cs") simp_all

lemma gaps_Some:
  "match_at (c # cs) = Some (m, rest) \<Longrightarrow> gaps (c # cs) = [] # gaps rest"
  by simp

lemma find_all_None: "match_at (c # cs) = None \<Longrightarrow> find_all (c # cs) = find_all cs"
  by simp

lemma find_all_Some:
  "match_at (c # cs) = Some (m, rest) \<Longrightarrow> find_all (c # cs) = m # find_all rest"
  by simp

lemma hd_tl_gaps: "hd (gaps s) # tl (gaps s) = gaps s"
  using gaps_nonempty [of s] by simp

lemma gaps_length: "length (gaps s) = Suc (length (find_all s))"
proof (induction s rule: find_all.induct)
  case 1
  then show ?case by simp
next
  case (2 c cs)
  show ?case
  proof (cases "match_at (c # cs)")
    case None
    with 2(1) [OF None] show ?thesis
      using gaps_nonempty [of cs]
      by (simp only: gaps_None [OF None] find_all_None [OF None]) (cases "gaps cs", simp_all)
  next
    case (Some a)
    obtain m rest where a: "a = (m, rest)" by (cases a)
    from 2(2) [OF Some [unfolded a] refl] show ?thesis
      by (simp only: gaps_Some [OF Some [unfolded a]] find_all_Some [OF Some [unfolded a]]) simp
  qed
qed

lemma weave_gaps_input: "weave (gaps s) (map group0 (find_all s)) = s"
proof (induction s rule: find_all.induct)
  case 1
  then show ?case by simp
next
  case (2 c cs)
  show ?case
  proof (cases "match_at (c # cs)")
    case None
    have "weave ((c # hd (gaps cs)) # tl (gaps cs)) (map group0 (find_all cs)) =
            c # weave (gaps cs) (map group0 (find_all cs))"
      by (simp only: weave_cons_char hd_tl_gaps)
    with 2(1) [OF None] show ?thesis
      by (simp only: gaps_None [OF None] find_all_None [OF None])
  next
    case (Some a)
    obtain m rest where a: "a = (m, rest)" by (cases a)
    note ma = Some [unfolded a]
    from match_at_SomeD [OF ma] have whole: "group0 m @ rest = c # cs" by metis
    have "weave (gaps (c # cs)) (map group0 (find_all (c # cs))) =
            group0 m @ weave (gaps rest) (map group0 (find_all rest))"
      by (simp only: gaps_Some [OF ma] find_all_Some [OF ma]) simp
    also have "\<dots> = group0 m @ rest"
      by (simp only: 2(2) [OF ma refl])
    finally show ?thesis
      by (simp only: whole)
  qed
qed

lemma replace_base64_result:
  "replace_base64 e dir st m =
     (fst (replace_base64 e dir st m), replacement e dir (Suc (image_count st)) m) \<and>
   image_count (fst (replace_base64 e dir st m)) = Suc (image_count st)"
  by (cases rule: replace_base64_cases [of e dir st m]) (simp_all add: replacement_def)

lemma re_sub_weave:
  "snd (re_sub e dir st s) =
     weave (gaps s) (map (\<lambda>(n, m). replacement e dir n m)
                       (enumerate (Suc (image_count st)) (find_all s)))"
proof (induction e dir st s rule: re_sub.induct)
  case (1 e dir st)
  then show ?case by simp
next
  case (2 e dir st c cs)
  show ?case
  proof (cases "match_at (c # cs)")
    case None
    have "weave ((c # hd (gaps cs)) # tl (gaps cs)) xs = c # weave (gaps cs) xs" for xs
      by (simp only: weave_cons_char hd_tl_gaps)
    with 2(1) [OF None] show ?thesis
      by (simp only: gaps_None [OF None] find_all_None [OF None] re_sub_None [OF None] snd_conv)
  next
    case (Some a)
    obtain m rest where a: "a = (m, rest)" by (cases a)
    note ma = Some [unfolded a]
    let ?st1 = "fst (replace_base64 e dir st m)"
    from replace_base64_result [of e dir st m]
    have r: "replace_base64 e dir st m = (?st1, replacement e dir (Suc (image_count st)) m)"
      and c1: "image_count ?st1 = Suc (image_count st)"
      by simp_all
    from 2(2) [OF ma refl r [symmetric]]
    have "snd (re_sub e dir ?st1 rest) =
            weave (gaps rest) (map (\<lambda>(n, m). replacement e dir n m)
                       (enumerate (Suc (Suc (image_count st))) (find_all rest)))"
      by (simp only: c1)
    moreover have "snd (replace_base64 e dir st m) = replacement e dir (Suc (image_count st)) m"
      using r by (metis snd_conv)
    ultimately show ?thesis
      by (simp only: gaps_Some [OF ma] find_all_Some [OF ma] re_sub_Some [OF ma] snd_conv)
         simp
  qed
qed

lemma match_at_append_None:
  assumes "match_at (u @ tail) = None"
  shows "match_at u = None"
proof (cases "match_at u")
  case None
  then show ?thesis .
next
  case (Some a)
  obtain m r where a: "a = (m, r)" by (cases a)
  from match_at_SomeD [OF Some [unfolded a]] obtain t p where
    t: "t \<in> set image_subtypes" and p: "p \<noteq> []" "list_all base64_char p"
    and u: "u = ''data:image/'' @ t @ '';base64,'' @ p @ r"
    by auto
  let ?q = "takeWhile base64_char (p @ r @ tail)" and ?rest = "dropWhile base64_char (p @ r @ tail)"
  from p have q: "?q \<noteq> []" by (cases p) auto
  have "match_at (''data:image/'' @ t @ '';base64,'' @ ?q @ ?rest) =
          Some (\<lparr>group0 = ''data:image/'' @ t @ '';base64,'' @ ?q, group1 = t, group2 = ?q\<rparr>, ?rest)"
    by (rule match_at_uri [OF t q takeWhile_all dropWhile_hd])
  then have "match_at (''data:image/'' @ t @ '';base64,'' @ p @ r @ tail) \<noteq> None"
    by (simp only: takeWhile_dropWhile_id) simp
  with assms u show ?thesis by simp
qed

lemma match_at_append_Some:
  assumes m: "match_at (u @ tail) = Some (m, rest)" and len: "length tail \<le> length rest"
  shows "\<exists>rest'. rest = rest' @ tail \<and> match_at u = Some (m, rest')"
proof -
  from match_at_SomeD [OF m] obtain t p where
    t: "t \<in> set image_subtypes" and p: "p \<noteq> []" "list_all base64_char p"
    and whole: "u @ tail = group0 m @ rest"
    and stop: "rest = [] \<or> \<not> base64_char (hd rest)"
    and mm: "m = \<lparr>group0 = ''data:image/'' @ t @ '';base64,'' @ p, group1 = t, group2 = p\<rparr>"
    by blast
  let ?rest' = "take (length rest - length tail) rest"
  let ?tail' = "drop (length rest - length tail) rest"
  have "length u + length tail = length (group0 m) + length rest"
    using arg_cong [OF whole, of length] by simp
  with len have l: "length (group0 m @ ?rest') = length u"
    by simp
  have e: "(group0 m @ ?rest') @ ?tail' = u @ tail"
    using whole by simp
  from append_eq_append_conv [of "group0 m @ ?rest'" u ?tail' tail] l e
  have u: "u = group0 m @ ?rest'" and tail: "?tail' = tail"
    by simp_all
  have "rest = ?rest' @ ?tail'"
    by simp
  then have rest: "rest = ?rest' @ tail"
    by (simp only: tail)
  have stop': "?rest' = [] \<or> \<not> base64_char (hd ?rest')"
  proof (cases "?rest' = []")
    case True
    then show ?thesis ..
  next
    case False
    then have "hd ?rest' = hd rest" by (cases rest) (auto simp: take_Cons' split: if_splits)
    moreover from False have "rest \<noteq> []" by auto
    ultimately show ?thesis using stop by simp
  qed
  have "match_at (''data:image/'' @ t @ '';base64,'' @ p @ ?rest') = Some (m, ?rest')"
    unfolding mm by (rule match_at_uri [OF t p stop'])
  moreover have "''data:image/'' @ t @ '';base64,'' @ p @ ?rest' = u"
    using u mm by simp
  ultimately have "match_at u = Some (m, ?rest')"
    by (simp only:)
  with rest show ?thesis by blast
qed

lemma boundary_head:
  assumes b: "\<forall>k<length (c # cs). \<forall>m rest.
                 match_at (drop k ((c # cs) @ tail)) = Some (m, rest) \<longrightarrow> length tail \<le> length rest"
  shows "(match_at (c # cs) = None \<and> match_at (c # cs @ tail) = None) \<or>
         (\<exists>m rest'. match_at (c # cs) = Some (m, rest') \<and>
                     match_at (c # cs @ tail) = Some (m, rest' @ tail))"
proof (cases "match_at ((c # cs) @ tail)")
  case None
  from match_at_append_None [OF None] None show ?thesis by simp
next
  case (Some a)
  obtain m rest where a: "a = (m, rest)" by (cases a)
  from b have "\<forall>m rest. match_at (drop 0 ((c # cs) @ tail)) = Some (m, rest) \<longrightarrow>
                 length tail \<le> length rest"
    by (metis length_greater_0_conv list.distinct(1))
  with Some a have "length tail \<le> length rest" by simp
  from match_at_append_Some [OF Some [unfolded a] this] Some a show ?thesis
    by auto
qed

lemma boundary_tail:
  assumes b: "\<forall>k<length (c # cs). \<forall>m rest.
                 match_at (drop k ((c # cs) @ tail)) = Some (m, rest) \<longrightarrow> length tail \<le> length rest"
  shows "\<forall>k<length cs. \<forall>m rest.
           match_at (drop k (cs @ tail)) = Some (m, rest) \<longrightarrow> length tail \<le> length rest"
proof (intro allI impI)
  fix k m rest
  assume k: "k < length cs" and m: "match_at (drop k (cs @ tail)) = Some (m, rest)"
  from k have "Suc k < length (c # cs)" by simp
  moreover from m have "match_at (drop (Suc k) ((c # cs) @ tail)) = Some (m, rest)" by simp
  ultimately show "length tail \<le> length rest" using b by blast
qed

lemma boundary_rest:
  assumes b: "\<forall>k<length s. \<forall>m rest.
                 match_at (drop k (s @ tail)) = Some (m, rest) \<longrightarrow> length tail \<le> length rest"
    and s: "s = g @ r"
  shows "\<forall>k<length r. \<forall>m rest.
           match_at (drop k (r @ tail)) = Some (m, rest) \<longrightarrow> length tail \<le> length rest"
proof (intro allI impI)
  fix k m rest
  assume k: "k < length r" and m: "match_at (drop k (r @ tail)) = Some (m, rest)"
  from k s have "length g + k < length s" by simp
  moreover from m s have "match_at (drop (length g + k) (s @ tail)) = Some (m, rest)"
    by (simp add: add.commute)
  ultimately show "length tail \<le> length rest" using b by blast
qed

lemma re_sub_append:
  assumes "\<forall>k<length pre. \<forall>m rest.
             match_at (drop k (pre @ tail)) = Some (m, rest) \<longrightarrow> length tail \<le> length rest"
  shows "re_sub e dir st (pre @ tail) =
           (fst (re_sub e dir (fst (re_sub e dir st pre)) tail),
            snd (re_sub e dir st pre) @ snd (re_sub e dir (fst (re_sub e dir st pre)) tail))"
  using assms
proof (induction e dir st pre rule: re_sub.induct)
  case (1 e dir st)
  then show ?case by simp
next
  case (2 e dir st c cs)
  from boundary_head [OF "2.prems"] show ?case
  proof (elim disjE conjE exE)
    assume n: "match_at (c # cs) = None" and n': "match_at (c # cs @ tail) = None"
    from "2.IH"(1) [OF n boundary_tail [OF "2.prems"]]
    show ?thesis
      by (simp only: append_Cons re_sub_None [OF n] re_sub_None [OF n'] fst_conv snd_conv)
  next
    fix m rest'
    assume ma: "match_at (c # cs) = Some (m, rest')"
      and ma': "match_at (c # cs @ tail) = Some (m, rest' @ tail)"
    let ?st1 = "fst (replace_base64 e dir st m)"
    have r: "(?st1, snd (replace_base64 e dir st m)) = replace_base64 e dir st m"
      by simp
    from match_at_SomeD [OF ma] have "c # cs = group0 m @ rest'" by blast
    from "2.IH"(2) [OF ma refl r boundary_rest [OF "2.prems" this]]
    show ?thesis
      by (simp only: append_Cons re_sub_Some [OF ma] re_sub_Some [OF ma'] fst_conv snd_conv
            append_assoc)
  qed
qed

lemma find_all_append:
  assumes "\<forall>k<length pre. \<forall>m rest.
             match_at (drop k (pre @ tail)) = Some (m, rest) \<longrightarrow> length tail \<le> length rest"
  shows "find_all (pre @ tail) = find_all pre @ find_all tail"
  using assms
proof (induction pre rule: find_all.induct)
  case 1
  then show ?case by simp
next
  case (2 c cs)
  from boundary_head [OF "2.prems"] show ?case
  proof (elim disjE conjE exE)
    assume n: "match_at (c # cs) = None" and n': "match_at (c # cs @ tail) = None"
    from "2.IH"(1) [OF n boundary_tail [OF "2.prems"]]
    show ?thesis
      by (simp only: append_Cons find_all_None [OF n] find_all_None [OF n'])
  next
    fix m rest'
    assume ma: "match_at (c # cs) = Some (m, rest')"
      and ma': "match_at (c # cs @ tail) = Some (m, rest' @ tail)"
    from match_at_SomeD [OF ma] have "c # cs = group0 m @ rest'" by blast
    from "2.IH"(2) [OF ma refl boundary_rest [OF "2.prems" this]]
    show ?thesis
      by (simp only: append_Cons find_all_Some [OF ma] find_all_Some [OF ma'])
  qed
qed

lemma list_all_from_one: "list_all P [1..<n] \<Longrightarrow> \<forall>k. 0 < k \<and> k < n \<longrightarrow> P k"
  by (auto simp: list_all_iff)

lemma ends_before_by_scan:
  assumes "list_all (\<lambda>k. case match_at (drop k doc) of
                            None \<Rightarrow> True
                          | Some (m, rest) \<Rightarrow> n \<le> length rest) [0..<j]"
  shows "\<forall>k<j. \<forall>m rest. match_at (drop k doc) = Some (m, rest) \<longrightarrow> n \<le> length rest"
proof (intro allI impI)
  fix k m rest
  assume k: "k < j" and m: "match_at (drop k doc) = Some (m, rest)"
  from assms k have "case match_at (drop k doc) of None \<Rightarrow> True
                        | Some (m, rest) \<Rightarrow> n \<le> length rest"
    by (simp add: list_all_iff)
  with m show "n \<le> length rest" by simp
qed

lemma empty_payload_no_match:
  assumes t: "t \<in> set image_subtypes" and post: "post = [] \<or> \<not> base64_char (hd post)"
  shows "\<forall>k < length (''data:image/'' @ t @ '';base64,'').
           match_at (drop k ((''data:image/'' @ t @ '';base64,'') @ post)) = None"
proof -
  let ?s = "''data:image/'' @ t @ '';base64,''"
  have here: "match_at (?s @ post) = None"
    using match_alternatives_empty_payload [OF post conjunct1 [OF subtype_chars [OF t]]
            subtypes_no_semicolon]
    by (simp add: match_at_def)
  have nod: "CHR ''d'' \<notin> set (tl ?s)"
    using subtype_chars [OF t] by simp
  show ?thesis
  proof (intro allI impI)
    fix k assume k: "k < length ?s"
    show "match_at (drop k (?s @ post)) = None"
    proof (cases k)
      case 0
      with here show ?thesis by simp
    next
      case (Suc j)
      show ?thesis
      proof (cases "match_at (drop k (?s @ post))")
        case None
        then show ?thesis .
      next
        case (Some x)
        from match_at_first_char [OF Some] have "(?s @ post) ! k = CHR ''d''" by simp
        with k have "?s ! k = CHR ''d''" by (simp only: nth_append if_True)
        with Suc have "tl ?s ! j = CHR ''d''" by simp
        moreover from k Suc have "j < length (tl ?s)" by simp
        ultimately have "CHR ''d'' \<in> set (tl ?s)" by (metis nth_mem)
        with nod show ?thesis by simp
      qed
    qed
  qed
qed

lemma untouched_span:
  assumes span: "\<forall>k < length s. match_at (drop k (s @ post)) = None"
    and before: "\<forall>k<length pre. \<forall>m rest.
             match_at (drop k (pre @ s @ post)) = Some (m, rest) \<longrightarrow>
             length (s @ post) \<le> length rest"
    and run: "extract_base64_images e (pre @ s @ post) dir = Inr r"
  shows "find_all (pre @ s @ post) = find_all pre @ find_all post \<and>
         modified_html r =
           snd (re_sub e dir \<lparr>image_count = 0, written = [], console = [Extracting]\<rparr> pre) @ s @
           snd (re_sub e dir
                  (fst (re_sub e dir \<lparr>image_count = 0, written = [], console = [Extracting]\<rparr> pre))
                  post) \<and>
         written (final r) =
           List.map_filter (\<lambda>(n, m). file_of_match e dir n m)
             (enumerate 1 (find_all pre @ find_all post)) \<and>
         image_count (final r) = length (find_all pre) + length (find_all post)"
proof -
  let ?st0 = "\<lparr>image_count = 0, written = [], console = [Extracting]\<rparr>"
  let ?st1 = "fst (re_sub e dir ?st0 pre)"
  have fa: "find_all (pre @ s @ post) = find_all pre @ find_all post"
    by (simp only: find_all_append [OF before] find_all_skip [OF span])
  have "re_sub e dir ?st0 (pre @ s @ post) =
          (fst (re_sub e dir ?st1 (s @ post)),
           snd (re_sub e dir ?st0 pre) @ snd (re_sub e dir ?st1 (s @ post)))"
    by (rule re_sub_append [OF before])
  then have scan: "re_sub e dir ?st0 (pre @ s @ post) =
          (fst (re_sub e dir ?st1 post),
           snd (re_sub e dir ?st0 pre) @ s @ snd (re_sub e dir ?st1 post))"
    by (simp only: re_sub_skip [OF span] fst_conv snd_conv)
  from extract_Inr [OF run]
  have out: "modified_html r = snd (re_sub e dir ?st0 (pre @ s @ post))"
    and w: "written (final r) = written (fst (re_sub e dir ?st0 (pre @ s @ post)))"
    and c: "image_count (final r) = image_count (fst (re_sub e dir ?st0 (pre @ s @ post)))"
    by simp_all
  have m: "modified_html r = snd (re_sub e dir ?st0 pre) @ s @ snd (re_sub e dir ?st1 post)"
    by (simp only: out scan snd_conv)
  have w': "written (final r) =
           List.map_filter (\<lambda>(n, m). file_of_match e dir n m)
             (enumerate 1 (find_all pre @ find_all post))"
    by (simp only: w re_sub_written fa) simp
  have c': "image_count (final r) = length (find_all pre) + length (find_all post)"
    by (simp only: c re_sub_count fa) simp
  show ?thesis
    by (rule conjI [OF fa conjI [OF m conjI [OF w' c']]])
qed

section \<open>Properties of the extractor\<close>

text \<open>
  Claim C1. Whenever \<open>extract_base64_images\<close> returns, the input is its regions
  outside the matches woven with the matched spans, and the returned text is the same
  regions, in the same order, woven with what stands for each match: the matched text
  itself, character for character, when no file was written for it (its payload did not
  decode, or the write failed), and the reference to its file otherwise. The files
  written are exactly those of the matches that were replaced by a reference.
\<close>

theorem extract_frame:
  assumes "extract_base64_images e html dir = Inr r"
  shows "html = weave (gaps html) (map group0 (find_all html)) \<and>
         length (gaps html) = Suc (length (find_all html)) \<and>
         modified_html r =
           weave (gaps html)
             (map (\<lambda>(n, m). replacement e dir n m) (enumerate 1 (find_all html))) \<and>
         written (final r) =
           List.map_filter (\<lambda>(n, m). file_of_match e dir n m) (enumerate 1 (find_all html))"
  using extract_Inr [OF assms]
  by (simp add: re_sub_weave re_sub_written weave_gaps_input gaps_length del: re_sub.simps)

text \<open>A run with one decoded match and one match whose payload does not decode.\<close>

theorem extract_frame_witness:
  "extract_base64_images std_env
     ''<img src=\"data:image/png;base64,aGVsbG8=\"><i>data:image/gif;base64,A</i>'' ''images'' =
   Inr \<lparr>modified_html = ''<img src=\"./images/image_0001.png\"><i>data:image/gif;base64,A</i>'',
        final = \<lparr>image_count = 2, written = [(''images/image_0001.png'', [104, 101, 108, 108, 111])],
                  console = [Extracting, Extracted ''image_0001.png'' 5, ErrorExtracting 2,
                             TotalExtracted 2]\<rparr>\<rparr> \<and>
   gaps ''<img src=\"data:image/png;base64,aGVsbG8=\"><i>data:image/gif;base64,A</i>'' =
     [''<img src=\"'', ''\"><i>'', ''</i>''] \<and>
   map group0 (find_all ''<img src=\"data:image/png;base64,aGVsbG8=\"><i>data:image/gif;base64,A</i>'') =
     [''data:image/png;base64,aGVsbG8='', ''data:image/gif;base64,A''] \<and>
   map (\<lambda>(n, m). replacement std_env ''images'' n m)
     (enumerate 1 (find_all
        ''<img src=\"data:image/png;base64,aGVsbG8=\"><i>data:image/gif;base64,A</i>'')) =
     [''./images/image_0001.png'', ''data:image/gif;base64,A''] \<and>
   ''<img src=\"./images/image_0001.png\"><i>data:image/gif;base64,A</i>'' =
     weave [''<img src=\"'', ''\"><i>'', ''</i>'']
       [''./images/image_0001.png'', ''data:image/gif;base64,A'']"
proof -
  let ?doc = "''<img src=\"data:image/png;base64,aGVsbG8=\"><i>data:image/gif;base64,A</i>''"
  let ?r = "\<lparr>modified_html = ''<img src=\"./images/image_0001.png\"><i>data:image/gif;base64,A</i>'',
        final = \<lparr>image_count = 2, written = [(''images/image_0001.png'', [104, 101, 108, 108, 111])],
                  console = [Extracting, Extracted ''image_0001.png'' 5, ErrorExtracting 2,
                             TotalExtracted 2]\<rparr>\<rparr>"
  have run: "extract_base64_images std_env ?doc ''images'' = Inr ?r"
    by code_simp
  have g: "gaps ?doc = [''<img src=\"'', ''\"><i>'', ''</i>'']"
    by code_simp
  have ms: "map group0 (find_all ?doc) =
              [''data:image/png;base64,aGVsbG8='', ''data:image/gif;base64,A'']"
    by code_simp
  have rp: "map (\<lambda>(n, m). replacement std_env ''images'' n m) (enumerate 1 (find_all ?doc)) =
              [''./images/image_0001.png'', ''data:image/gif;base64,A'']"
    by code_simp
  from extract_frame [OF run]
  have "modified_html ?r =
          weave (gaps ?doc)
            (map (\<lambda>(n, m). replacement std_env ''images'' n m) (enumerate 1 (find_all ?doc)))"
    by (rule conjunct1 [OF conjunct2 [OF conjunct2]])
  then have "''<img src=\"./images/image_0001.png\"><i>data:image/gif;base64,A</i>'' =
     weave [''<img src=\"'', ''\"><i>'', ''</i>'']
       [''./images/image_0001.png'', ''data:image/gif;base64,A'']"
    by (simp only: g rp run.select_convs)
  with run g ms rp show ?thesis
    by (intro conjI)
qed

text \<open>
  Claim C2. Let the document be \<open>pre\<close>, then \<open>data:image/png;base64,B\<close>, then \<open>post\<close>,
  where \<open>B\<close> is a non-empty run of characters of the class that the decoder turns
  into the bytes \<open>X\<close>, the run ends there (\<open>post\<close> is empty or starts with a character
  outside the class), and no match starts inside \<open>pre\<close>, so that this URI is the first
  match. If the directory can be made and the file written, the call returns; after the
  writes of the run the file \<open>image_0001.png\<close> of the output directory holds exactly
  \<open>X\<close>, whatever the file system held before; and the returned text is \<open>pre\<close>, the
  reference \<open>./<output_dir>/image_0001.png\<close>, and the rewritten rest.
\<close>

theorem round_trip_first_match:
  assumes mk: "can_mkdir e dir"
    and dec: "b64decode e B = Some X"
    and wr: "can_write e (os_path_join dir ''image_0001.png'')"
    and B: "B \<noteq> []" "list_all base64_char B"
    and post: "post = [] \<or> \<not> base64_char (hd post)"
    and first: "\<forall>k < length pre. match_at (drop k (pre @ ''data:image/png;base64,'' @ B @ post)) = None"
  shows "\<exists>r. extract_base64_images e (pre @ ''data:image/png;base64,'' @ B @ post) dir = Inr r \<and>
           apply_writes fs (written (final r)) (os_path_join dir ''image_0001.png'') = Some X \<and>
           modified_html r =
             pre @ ''./'' @ dir @ ''/image_0001.png'' @
             snd (re_sub e dir
                   \<lparr>image_count = 1, written = [(os_path_join dir ''image_0001.png'', X)],
                    console = [Extracting, Extracted ''image_0001.png'' (length X)]\<rparr> post)"
proof -
  let ?st0 = "\<lparr>image_count = 0, written = [], console = [Extracting]\<rparr>"
  let ?path = "os_path_join dir ''image_0001.png''"
  let ?st1 = "\<lparr>image_count = 1, written = [(?path, X)],
               console = [Extracting, Extracted ''image_0001.png'' (length X)]\<rparr>"
  let ?uri = "''data:image/png;base64,'' @ B @ post"
  let ?end = "fst (re_sub e dir ?st1 post)"
  let ?out = "pre @ ''./'' @ dir @ ''/image_0001.png'' @ snd (re_sub e dir ?st1 post)"
  note at_uri = first_png_step [OF dec wr B post]
  have "re_sub e dir ?st0 (pre @ ?uri) =
          (fst (re_sub e dir ?st0 ?uri), pre @ snd (re_sub e dir ?st0 ?uri))"
    using first by (rule re_sub_skip)
  then have whole: "re_sub e dir ?st0 (pre @ ?uri) = (?end, ?out)"
    unfolding at_uri fst_conv snd_conv .
  let ?r = "\<lparr>modified_html = ?out,
             final = ?end\<lparr>console := console ?end @ [TotalExtracted (image_count ?end)]\<rparr>\<rparr>"
  have run: "extract_base64_images e (pre @ ?uri) dir = Inr ?r"
    unfolding extract_base64_images_def whole using mk by simp
  let ?later = "List.map_filter (\<lambda>(n, m). file_of_match e dir n m)
                  (enumerate (Suc (Suc 0)) (find_all post))"
  have w: "written (final ?r) = (?path, X) # ?later"
    by (simp add: re_sub_written del: re_sub.simps)
  have "apply_writes (fs(?path \<mapsto> X)) ?later ?path = Some X"
    using later_paths_differ [of dir e "find_all post"] by (simp add: apply_writes_other)
  then have "apply_writes fs (written (final ?r)) ?path = Some X"
    unfolding w by simp
  with run show ?thesis
    by (intro exI [of _ ?r]) (simp del: re_sub.simps)
qed

text \<open>
  The payload \<open>aGVsbG8=\<close> in an \<open>img\<close> tag, with the decoder of the standard library
  and the default output directory \<open>images\<close>.
\<close>

theorem round_trip_first_match_witness:
  "b64decode std_env ''aGVsbG8='' = Some [104, 101, 108, 108, 111] \<and>
   (\<exists>r. extract_base64_images std_env ''<img src=\"data:image/png;base64,aGVsbG8=\">'' ''images'' = Inr r \<and>
        apply_writes Map.empty (written (final r)) ''images/image_0001.png'' =
          Some [104, 101, 108, 108, 111] \<and>
        modified_html r = ''<img src=\"./images/image_0001.png\">'')"
proof -
  have mk: "can_mkdir std_env ''images''"
    by (simp add: std_env_def)
  have dec: "b64decode std_env ''aGVsbG8='' = Some [104, 101, 108, 108, 111]"
    by code_simp
  have wr: "can_write std_env (os_path_join ''images'' ''image_0001.png'')"
    by (simp add: std_env_def)
  have B: "''aGVsbG8='' \<noteq> []" "list_all base64_char ''aGVsbG8=''"
    by (simp_all add: base64_char_def in_range_def)
  have post: "''\">'' = [] \<or> \<not> base64_char (hd ''\">'')"
    by (simp add: base64_char_def in_range_def)
  have first: "\<forall>k < length ''<img src=\"''.
      match_at (drop k (''<img src=\"'' @ ''data:image/png;base64,'' @ ''aGVsbG8='' @ ''\">'')) = None"
    by (rule list_all_upt) code_simp
  have tail: "re_sub std_env ''images'' st ''\">'' = (st, ''\">'')" for st
    by (simp add: match_at_def)
  have path: "os_path_join ''images'' ''image_0001.png'' = ''images/image_0001.png''"
    by (simp add: os_path_join_def)
  from round_trip_first_match [OF mk dec wr B post first, of Map.empty]
  show ?thesis
    unfolding tail path using dec by simp
qed

text \<open>
  Claim C5. The files written by a run are, in this order, the files of the matches of
  the document taken from left to right and numbered from 1: the match number \<open>n\<close>
  contributes the file \<open>image_<n as four digits>.<extension of its subtype>\<close> when its
  payload decodes and the file can be written, and nothing otherwise. The counter ends
  at the number of matches.
\<close>

theorem sequence_numbers_in_scan_order:
  assumes "extract_base64_images e html dir = Inr r"
  shows "written (final r) =
           List.map_filter (\<lambda>(n, m). file_of_match e dir n m) (enumerate 1 (find_all html)) \<and>
         image_count (final r) = length (find_all html)"
  using extract_Inr [OF assms] by (simp add: re_sub_written re_sub_count)

text \<open>
  Three matches that decode, with the subtypes \<open>png\<close>, \<open>jpeg\<close> and \<open>svg+xml\<close>: the
  files are \<open>image_0001.png\<close>, \<open>image_0002.jpeg\<close> and \<open>image_0003.svg\<close>.
\<close>

theorem sequence_numbers_in_scan_order_witness:
  "extract_base64_images std_env
     ''data:image/png;base64,AAAA data:image/jpeg;base64,aGk= data:image/svg+xml;base64,AAAA''
     ''images'' =
   Inr \<lparr>modified_html = ''./images/image_0001.png ./images/image_0002.jpeg ./images/image_0003.svg'',
        final = \<lparr>image_count = 3,
                  written = [(''images/image_0001.png'', [0, 0, 0]),
                             (''images/image_0002.jpeg'', [104, 105]),
                             (''images/image_0003.svg'', [0, 0, 0])],
                  console = [Extracting, Extracted ''image_0001.png'' 3,
                             Extracted ''image_0002.jpeg'' 2, Extracted ''image_0003.svg'' 3,
                             TotalExtracted 3]\<rparr>\<rparr> \<and>
   List.map_filter (\<lambda>(n, m). file_of_match std_env ''images'' n m)
     (enumerate 1 (find_all
        ''data:image/png;base64,AAAA data:image/jpeg;base64,aGk= data:image/svg+xml;base64,AAAA'')) =
     [(''images/image_0001.png'', [0, 0, 0]), (''images/image_0002.jpeg'', [104, 105]),
      (''images/image_0003.svg'', [0, 0, 0])] \<and>
   length (find_all
        ''data:image/png;base64,AAAA data:image/jpeg;base64,aGk= data:image/svg+xml;base64,AAAA'') = 3"
proof -
  have run: "extract_base64_images std_env
     ''data:image/png;base64,AAAA data:image/jpeg;base64,aGk= data:image/svg+xml;base64,AAAA''
     ''images'' =
   Inr \<lparr>modified_html = ''./images/image_0001.png ./images/image_0002.jpeg ./images/image_0003.svg'',
        final = \<lparr>image_count = 3,
                  written = [(''images/image_0001.png'', [0, 0, 0]),
                             (''images/image_0002.jpeg'', [104, 105]),
                             (''images/image_0003.svg'', [0, 0, 0])],
                  console = [Extracting, Extracted ''image_0001.png'' 3,
                             Extracted ''image_0002.jpeg'' 2, Extracted ''image_0003.svg'' 3,
                             TotalExtracted 3]\<rparr>\<rparr>"
    by code_simp
  from sequence_numbers_in_scan_order [OF run] run show ?thesis
    by simp
qed

text \<open>
  Claim C6. For a text with no substring \<open>data:image/<subtype>;base64,<payload>\<close> of a
  recognised subtype and a non-empty payload, the call (when the output directory can be
  made) returns the text unchanged, writes no file and leaves the counter at 0.
\<close>

theorem no_match_passthrough:
  assumes "no_data_uri html" "can_mkdir e dir"
  shows "extract_base64_images e html dir =
           Inr \<lparr>modified_html = html,
                final = \<lparr>image_count = 0, written = [],
                          console = [Extracting, TotalExtracted 0]\<rparr>\<rparr>"
proof -
  have "\<forall>k < length html. match_at (drop k (html @ [])) = None"
    using no_data_uri_no_match [OF assms(1)] by simp
  from re_sub_skip [OF this]
  have "re_sub e dir \<lparr>image_count = 0, written = [], console = [Extracting]\<rparr> html =
          (\<lparr>image_count = 0, written = [], console = [Extracting]\<rparr>, html)"
    by simp
  with assms(2) show ?thesis
    by (simp add: extract_base64_images_def)
qed

text \<open>A text whose only data URI has the subtype \<open>bmp\<close>.\<close>

theorem no_match_passthrough_witness:
  "no_data_uri ''<p>data:image/bmp;base64,AAAA</p>'' \<and>
   extract_base64_images std_env ''<p>data:image/bmp;base64,AAAA</p>'' ''images'' =
     Inr \<lparr>modified_html = ''<p>data:image/bmp;base64,AAAA</p>'',
          final = \<lparr>image_count = 0, written = [],
                    console = [Extracting, TotalExtracted 0]\<rparr>\<rparr>"
proof -
  have "\<forall>k < length ''<p>data:image/bmp;base64,AAAA</p>''.
          match_at (drop k ''<p>data:image/bmp;base64,AAAA</p>'') = None"
    by (rule list_all_upt) code_simp
  then have none: "no_data_uri ''<p>data:image/bmp;base64,AAAA</p>''"
    by (rule no_data_uri_by_scan)
  have mk: "can_mkdir std_env ''images''"
    by (simp add: std_env_def)
  from no_match_passthrough [OF none mk] none show ?thesis
    by simp
qed

text \<open>
  Claim C7. The paths of the files written in one run are pairwise distinct, whatever
  the number of matches.
\<close>

theorem output_paths_distinct:
  assumes "extract_base64_images e html dir = Inr r"
  shows "distinct (map fst (written (final r)))"
  using extract_Inr [OF assms] files_distinct [of e dir 1 "find_all html"]
  by (simp add: re_sub_written)

text \<open>Two matches with the same subtype and the same payload.\<close>

theorem output_paths_distinct_witness:
  "extract_base64_images std_env
     ''url(data:image/gif;base64,AAAA) url(data:image/gif;base64,AAAA)'' ''images'' =
   Inr \<lparr>modified_html = ''url(./images/image_0001.gif) url(./images/image_0002.gif)'',
        final = \<lparr>image_count = 2,
                  written = [(''images/image_0001.gif'', [0, 0, 0]),
                             (''images/image_0002.gif'', [0, 0, 0])],
                  console = [Extracting, Extracted ''image_0001.gif'' 3,
                             Extracted ''image_0002.gif'' 3, TotalExtracted 2]\<rparr>\<rparr> \<and>
   distinct [''images/image_0001.gif'', ''images/image_0002.gif'']"
proof -
  have run: "extract_base64_images std_env
     ''url(data:image/gif;base64,AAAA) url(data:image/gif;base64,AAAA)'' ''images'' =
   Inr \<lparr>modified_html = ''url(./images/image_0001.gif) url(./images/image_0002.gif)'',
        final = \<lparr>image_count = 2,
                  written = [(''images/image_0001.gif'', [0, 0, 0]),
                             (''images/image_0002.gif'', [0, 0, 0])],
                  console = [Extracting, Extracted ''image_0001.gif'' 3,
                             Extracted ''image_0002.gif'' 3, TotalExtracted 2]\<rparr>\<rparr>"
    by code_simp
  from output_paths_distinct [OF run] run show ?thesis
    by simp
qed

text \<open>
  Claim C9, as the script has it. Let \<open>t\<close> be a subtype outside the recognised ones,
  with no \<open>;\<close> in it, and let the document be \<open>pre\<close>, the URI
  \<open>data:image/t;base64,p\<close> and \<open>post\<close>. The pattern does not match at the URI. When
  no match overlaps the URI (every match that begins in \<open>pre\<close> ends before the URI,
  and no match begins inside the URI), the matches of the document are those of
  \<open>pre\<close> followed by those of \<open>post\<close>; the returned text is the rewritten \<open>pre\<close>, the
  URI unchanged, and \<open>post\<close> rewritten from the state the scan had before the URI; the
  files and the counter are those of the matches of \<open>pre\<close> and \<open>post\<close>, numbered
  without a break: the URI produces no file and uses no sequence number.
\<close>

theorem unrecognized_subtype_untouched:
  assumes t: "t \<notin> set image_subtypes" "CHR '';'' \<notin> set t"
    and inside: "\<forall>k. 0 < k \<and> k < length (''data:image/'' @ t @ '';base64,'' @ p) \<longrightarrow>
             match_at (drop k ((''data:image/'' @ t @ '';base64,'' @ p) @ post)) = None"
    and before: "\<forall>k<length pre. \<forall>m rest.
             match_at (drop k (pre @ (''data:image/'' @ t @ '';base64,'' @ p) @ post)) = Some (m, rest) \<longrightarrow>
             length ((''data:image/'' @ t @ '';base64,'' @ p) @ post) \<le> length rest"
    and run: "extract_base64_images e (pre @ (''data:image/'' @ t @ '';base64,'' @ p) @ post) dir = Inr r"
  shows "match_at ((''data:image/'' @ t @ '';base64,'' @ p) @ post) = None \<and>
         find_all (pre @ (''data:image/'' @ t @ '';base64,'' @ p) @ post) =
           find_all pre @ find_all post \<and>
         modified_html r =
           snd (re_sub e dir \<lparr>image_count = 0, written = [], console = [Extracting]\<rparr> pre) @
           (''data:image/'' @ t @ '';base64,'' @ p) @
           snd (re_sub e dir
                  (fst (re_sub e dir \<lparr>image_count = 0, written = [], console = [Extracting]\<rparr> pre))
                  post) \<and>
         written (final r) =
           List.map_filter (\<lambda>(n, m). file_of_match e dir n m)
             (enumerate 1 (find_all pre @ find_all post)) \<and>
         image_count (final r) = length (find_all pre) + length (find_all post)"
proof -
  let ?s = "''data:image/'' @ t @ '';base64,'' @ p"
  have here: "match_at (?s @ post) = None"
    using match_at_other_subtype [OF t, of "p @ post"] by simp
  have span: "\<forall>k < length ?s. match_at (drop k (?s @ post)) = None"
  proof (intro allI impI)
    fix k assume k: "k < length ?s"
    show "match_at (drop k (?s @ post)) = None"
    proof (cases k)
      case 0
      with here show ?thesis by simp
    next
      case (Suc j)
      then have "0 < k \<and> k < length ?s" using k by simp
      from inside [rule_format, OF this] show ?thesis .
    qed
  qed
  show ?thesis
    by (rule conjI [OF here untouched_span [OF span before run]])
qed

text \<open>
  The URI \<open>data:image/bmp;base64,AAAA\<close> between a \<open>png\<close> match and a \<open>gif\<close> match,
  followed by a quotation mark and a colon.
\<close>

theorem unrecognized_subtype_untouched_witness:
  "''bmp'' \<notin> set image_subtypes \<and>
   extract_base64_images std_env
     ''<b>data:image/png;base64,AAAA</b> data:image/bmp;base64,AAAA\":1} data:image/gif;base64,aGk=''
     ''images'' =
     Inr \<lparr>modified_html =
            ''<b>./images/image_0001.png</b> data:image/bmp;base64,AAAA\":1} ./images/image_0002.gif'',
          final = \<lparr>image_count = 2,
                    written = [(''images/image_0001.png'', [0, 0, 0]),
                               (''images/image_0002.gif'', [104, 105])],
                    console = [Extracting, Extracted ''image_0001.png'' 3,
                               Extracted ''image_0002.gif'' 2, TotalExtracted 2]\<rparr>\<rparr> \<and>
   match_at ''data:image/bmp;base64,AAAA\":1} data:image/gif;base64,aGk='' = None \<and>
   find_all ''<b>data:image/png;base64,AAAA</b> data:image/bmp;base64,AAAA\":1} data:image/gif;base64,aGk='' =
     find_all ''<b>data:image/png;base64,AAAA</b> '' @ find_all ''\":1} data:image/gif;base64,aGk=''"
proof -
  let ?pre = "''<b>data:image/png;base64,AAAA</b> ''"
  let ?post = "''\":1} data:image/gif;base64,aGk=''"
  let ?r = "\<lparr>modified_html =
            ''<b>./images/image_0001.png</b> data:image/bmp;base64,AAAA\":1} ./images/image_0002.gif'',
          final = \<lparr>image_count = 2,
                    written = [(''images/image_0001.png'', [0, 0, 0]),
                               (''images/image_0002.gif'', [104, 105])],
                    console = [Extracting, Extracted ''image_0001.png'' 3,
                               Extracted ''image_0002.gif'' 2, TotalExtracted 2]\<rparr>\<rparr>"
  have t: "''bmp'' \<notin> set image_subtypes" "CHR '';'' \<notin> set ''bmp''"
    by (simp_all add: image_subtypes_def)
  have inside: "\<forall>k. 0 < k \<and> k < length (''data:image/'' @ ''bmp'' @ '';base64,'' @ ''AAAA'') \<longrightarrow>
             match_at (drop k ((''data:image/'' @ ''bmp'' @ '';base64,'' @ ''AAAA'') @ ?post)) = None"
    by (rule list_all_from_one) code_simp
  have before: "\<forall>k<length ?pre. \<forall>m rest.
             match_at (drop k (?pre @ (''data:image/'' @ ''bmp'' @ '';base64,'' @ ''AAAA'') @ ?post)) =
               Some (m, rest) \<longrightarrow>
             length ((''data:image/'' @ ''bmp'' @ '';base64,'' @ ''AAAA'') @ ?post) \<le> length rest"
    by (rule ends_before_by_scan) code_simp
  have run: "extract_base64_images std_env
               (?pre @ (''data:image/'' @ ''bmp'' @ '';base64,'' @ ''AAAA'') @ ?post) ''images'' = Inr ?r"
    by code_simp
  note u = unrecognized_subtype_untouched [OF t inside before run]
  from u have a: "match_at ((''data:image/'' @ ''bmp'' @ '';base64,'' @ ''AAAA'') @ ?post) = None"
    by (rule conjunct1)
  from u have b: "find_all (?pre @ (''data:image/'' @ ''bmp'' @ '';base64,'' @ ''AAAA'') @ ?post) =
                    find_all ?pre @ find_all ?post"
    by (rule conjunct1 [OF conjunct2])
  from t(1) run a b show ?thesis
    by (simp del: find_all.simps)
qed

text \<open>
  Claim C9 without the condition on overlapping matches: the payload of a \<open>png\<close> match
  runs into the \<open>data\<close> of the \<open>bmp\<close> URI that follows it, and the URI does not
  remain in the output.
\<close>

theorem overlapped_subtype_counterexample:
  "extract_base64_images std_env ''data:image/png;base64,QUJDdata:image/bmp;base64,AAAA'' ''images'' =
     Inr \<lparr>modified_html = ''./images/image_0001.png:image/bmp;base64,AAAA'',
          final = \<lparr>image_count = 1,
                    written = [(''images/image_0001.png'', [65, 66, 67, 117, 171, 90])],
                    console = [Extracting, Extracted ''image_0001.png'' 6, TotalExtracted 1]\<rparr>\<rparr>"
  by code_simp

text \<open>
  Claim C10, as the script has it. Let the document be \<open>pre\<close>, then
  \<open>data:image/<subtype>;base64,\<close> with a recognised subtype, then \<open>post\<close>, where
  \<open>post\<close> is empty or starts with a character outside the class. The pattern does not
  match at the prefix. When every match that begins in \<open>pre\<close> ends before the prefix,
  the matches of the document are those of \<open>pre\<close> followed by those of \<open>post\<close>; the
  returned text is the rewritten \<open>pre\<close>, the prefix unchanged, and \<open>post\<close> rewritten
  from the state the scan had before the prefix; the files and the counter are those of
  the matches of \<open>pre\<close> and \<open>post\<close>, numbered without a break.
\<close>

theorem empty_payload_not_matched:
  assumes t: "t \<in> set image_subtypes"
    and post: "post = [] \<or> \<not> base64_char (hd post)"
    and before: "\<forall>k<length pre. \<forall>m rest.
             match_at (drop k (pre @ (''data:image/'' @ t @ '';base64,'') @ post)) = Some (m, rest) \<longrightarrow>
             length ((''data:image/'' @ t @ '';base64,'') @ post) \<le> length rest"
    and run: "extract_base64_images e (pre @ (''data:image/'' @ t @ '';base64,'') @ post) dir = Inr r"
  shows "match_at ((''data:image/'' @ t @ '';base64,'') @ post) = None \<and>
         find_all (pre @ (''data:image/'' @ t @ '';base64,'') @ post) = find_all pre @ find_all post \<and>
         modified_html r =
           snd (re_sub e dir \<lparr>image_count = 0, written = [], console = [Extracting]\<rparr> pre) @
           (''data:image/'' @ t @ '';base64,'') @
           snd (re_sub e dir
                  (fst (re_sub e dir \<lparr>image_count = 0, written = [], console = [Extracting]\<rparr> pre))
                  post) \<and>
         written (final r) =
           List.map_filter (\<lambda>(n, m). file_of_match e dir n m)
             (enumerate 1 (find_all pre @ find_all post)) \<and>
         image_count (final r) = length (find_all pre) + length (find_all post)"
proof -
  note span = empty_payload_no_match [OF t post]
  have "0 < length (''data:image/'' @ t @ '';base64,'')"
    by simp
  from span [rule_format, OF this]
  have "match_at (drop 0 ((''data:image/'' @ t @ '';base64,'') @ post)) = None" .
  then have "match_at ((''data:image/'' @ t @ '';base64,'') @ post) = None"
    by simp
  then show ?thesis
    by (rule conjI [OF _ untouched_span [OF span before run]])
qed

text \<open>
  The prefix for \<open>gif\<close> followed by a quotation mark, between a \<open>png\<close> match and a
  \<open>gif\<close> match.
\<close>

theorem empty_payload_not_matched_witness:
  "''gif'' \<in> set image_subtypes \<and> \<not> base64_char (hd ''\"> data:image/gif;base64,aGk='') \<and>
   extract_base64_images std_env
     ''<b>data:image/png;base64,AAAA</b> data:image/gif;base64,\"> data:image/gif;base64,aGk=''
     ''images'' =
     Inr \<lparr>modified_html =
            ''<b>./images/image_0001.png</b> data:image/gif;base64,\"> ./images/image_0002.gif'',
          final = \<lparr>image_count = 2,
                    written = [(''images/image_0001.png'', [0, 0, 0]),
                               (''images/image_0002.gif'', [104, 105])],
                    console = [Extracting, Extracted ''image_0001.png'' 3,
                               Extracted ''image_0002.gif'' 2, TotalExtracted 2]\<rparr>\<rparr> \<and>
   match_at ''data:image/gif;base64,\"> data:image/gif;base64,aGk='' = None \<and>
   find_all ''<b>data:image/png;base64,AAAA</b> data:image/gif;base64,\"> data:image/gif;base64,aGk='' =
     find_all ''<b>data:image/png;base64,AAAA</b> '' @ find_all ''\"> data:image/gif;base64,aGk=''"
proof -
  let ?pre = "''<b>data:image/png;base64,AAAA</b> ''"
  let ?post = "''\"> data:image/gif;base64,aGk=''"
  let ?r = "\<lparr>modified_html =
            ''<b>./images/image_0001.png</b> data:image/gif;base64,\"> ./images/image_0002.gif'',
          final = \<lparr>image_count = 2,
                    written = [(''images/image_0001.png'', [0, 0, 0]),
                               (''images/image_0002.gif'', [104, 105])],
                    console = [Extracting, Extracted ''image_0001.png'' 3,
                               Extracted ''image_0002.gif'' 2, TotalExtracted 2]\<rparr>\<rparr>"
  have t: "''gif'' \<in> set image_subtypes"
    by (simp add: image_subtypes_def)
  have nb: "\<not> base64_char (hd ?post)"
    by (simp add: base64_char_def in_range_def)
  then have post: "?post = [] \<or> \<not> base64_char (hd ?post)" ..
  have before: "\<forall>k<length ?pre. \<forall>m rest.
             match_at (drop k (?pre @ (''data:image/'' @ ''gif'' @ '';base64,'') @ ?post)) =
               Some (m, rest) \<longrightarrow>
             length ((''data:image/'' @ ''gif'' @ '';base64,'') @ ?post) \<le> length rest"
    by (rule ends_before_by_scan) code_simp
  have run: "extract_base64_images std_env
               (?pre @ (''data:image/'' @ ''gif'' @ '';base64,'') @ ?post) ''images'' = Inr ?r"
    by code_simp
  note u = empty_payload_not_matched [OF t post before run]
  from u have a: "match_at ((''data:image/'' @ ''gif'' @ '';base64,'') @ ?post) = None"
    by (rule conjunct1)
  from u have b: "find_all (?pre @ (''data:image/'' @ ''gif'' @ '';base64,'') @ ?post) =
                    find_all ?pre @ find_all ?post"
    by (rule conjunct1 [OF conjunct2])
  from t nb run a b show ?thesis
    by (simp del: find_all.simps)
qed

text \<open>
  Claim C10 without the condition on the text before: the payload of a \<open>png\<close> match
  runs into the \<open>data\<close> of the prefix that follows it, and the prefix does not remain
  in the output.
\<close>

theorem overlapped_prefix_counterexample:
  "extract_base64_images std_env ''<i>data:image/png;base64,QUJDdata:image/gif;base64,</i>'' ''images'' =
     Inr \<lparr>modified_html = ''<i>./images/image_0001.png:image/gif;base64,</i>'',
          final = \<lparr>image_count = 1,
                    written = [(''images/image_0001.png'', [65, 66, 67, 117, 171, 90])],
                    console = [Extracting, Extracted ''image_0001.png'' 6, TotalExtracted 1]\<rparr>\<rparr>"
  by code_simp

text \<open>
  Claim C3, as the script has it. Let the scan be at a match whose payload the decoder
  rejects. The callback returns the matched text itself, moves the counter up by one,
  prints the line \<open>Error extracting image <n>\<close> and writes nothing; the script keeps no
  count of failures. The scan puts the matched text into the output unchanged and goes
  on with the rest of the text. The files written from here on are those of the later
  matches, numbered from the counter plus two, so that no file has the number of the
  failed match.
\<close>

theorem failed_decode_keeps_text:
  assumes m: "match_at s = Some (m, rest)" and dec: "b64decode e (group2 m) = None"
  shows "replace_base64 e dir st m =
           (st\<lparr>image_count := Suc (image_count st),
               console := console st @ [ErrorExtracting (Suc (image_count st))]\<rparr>,
            group0 m) \<and>
         s = group0 m @ rest \<and>
         re_sub e dir st s =
           (fst (re_sub e dir
                   (st\<lparr>image_count := Suc (image_count st),
                       console := console st @ [ErrorExtracting (Suc (image_count st))]\<rparr>) rest),
            group0 m @
            snd (re_sub e dir
                   (st\<lparr>image_count := Suc (image_count st),
                       console := console st @ [ErrorExtracting (Suc (image_count st))]\<rparr>) rest)) \<and>
         written (fst (re_sub e dir st s)) =
           written st @
           List.map_filter (\<lambda>(n, m). file_of_match e dir n m)
             (enumerate (Suc (Suc (image_count st))) (find_all rest)) \<and>
         (\<forall>t. os_path_join dir (file_name (Suc (image_count st)) t) \<notin>
                fst ` set (List.map_filter (\<lambda>(n, m). file_of_match e dir n m)
                            (enumerate (Suc (Suc (image_count st))) (find_all rest))))"
proof -
  let ?st1 = "st\<lparr>image_count := Suc (image_count st),
                 console := console st @ [ErrorExtracting (Suc (image_count st))]\<rparr>"
  let ?later = "List.map_filter (\<lambda>(n, m). file_of_match e dir n m)
                  (enumerate (Suc (Suc (image_count st))) (find_all rest))"
  from dec have "file_of_match e dir (Suc (image_count st)) m = None"
    by (simp add: file_of_match_def)
  then have repl: "replace_base64 e dir st m = (?st1, group0 m)"
    by (rule replace_base64_failure)
  from match_at_SomeD [OF m] have s: "s = group0 m @ rest"
    by blast
  from match_at_nonempty [OF m] obtain c cs where cs: "s = c # cs"
    by blast
  have scan: "re_sub e dir st s =
                (fst (re_sub e dir ?st1 rest), group0 m @ snd (re_sub e dir ?st1 rest))"
    using re_sub_Some [OF m [unfolded cs], of e dir st]
    unfolding cs repl fst_conv snd_conv .
  have w: "written (fst (re_sub e dir st s)) = written st @ ?later"
    unfolding scan fst_conv by (simp add: re_sub_written)
  have gap: "os_path_join dir (file_name (Suc (image_count st)) t) \<notin> fst ` set ?later" for t
  proof
    assume "os_path_join dir (file_name (Suc (image_count st)) t) \<in> fst ` set ?later"
    then obtain d where "(os_path_join dir (file_name (Suc (image_count st)) t), d) \<in> set ?later"
      by auto
    from files_from [OF this] obtain n t' where n: "Suc (Suc (image_count st)) \<le> n"
      "os_path_join dir (file_name (Suc (image_count st)) t) = os_path_join dir (file_name n t')"
      by blast
    from path_inj [OF n(2)] n(1) show False by simp
  qed
  from repl s scan w gap show ?thesis
    by blast
qed

text \<open>The payload \<open>AA=\<close>, which the decoder rejects, met with the counter at 4.\<close>

theorem failed_decode_keeps_text_witness:
  "match_at ''data:image/gif;base64,AA=)'' =
     Some (\<lparr>group0 = ''data:image/gif;base64,AA='', group1 = ''gif'', group2 = ''AA=''\<rparr>, '')'') \<and>
   b64decode std_env ''AA='' = None \<and>
   re_sub std_env ''images'' \<lparr>image_count = 4, written = [], console = []\<rparr>
     ''data:image/gif;base64,AA=)'' =
     (\<lparr>image_count = 5, written = [], console = [ErrorExtracting 5]\<rparr>,
      ''data:image/gif;base64,AA=)'')"
proof -
  have m: "match_at ''data:image/gif;base64,AA=)'' =
     Some (\<lparr>group0 = ''data:image/gif;base64,AA='', group1 = ''gif'', group2 = ''AA=''\<rparr>, '')'')"
    by code_simp
  have dec: "b64decode std_env ''AA='' = None"
    by code_simp
  have dec': "b64decode std_env
      (group2 \<lparr>group0 = ''data:image/gif;base64,AA='', group1 = ''gif'', group2 = ''AA=''\<rparr>) = None"
    using dec by simp
  have tail: "re_sub std_env ''images'' st '')'' = (st, '')'')" for st
    by (simp add: match_at_def)
  from failed_decode_keeps_text [OF m dec', of "''images''"
         "\<lparr>image_count = 4, written = [], console = []\<rparr>"]
  have "re_sub std_env ''images'' \<lparr>image_count = 4, written = [], console = []\<rparr>
     ''data:image/gif;base64,AA=)'' =
     (\<lparr>image_count = 5, written = [], console = [ErrorExtracting 5]\<rparr>,
      ''data:image/gif;base64,AA=)'')"
    unfolding tail by (simp del: re_sub.simps)
  with m dec show ?thesis by (simp del: re_sub.simps)
qed

text \<open>
  Claim C3 speaks of a failure count that goes up. The state of a run has one counter,
  and it goes up at every match: after a run with one failed match and after a run with
  one decoded match, the counter and the total printed at the end are the same.
\<close>

theorem failure_count_counterexample:
  "extract_base64_images std_env ''<img src=\"data:image/gif;base64,AA=\">'' ''images'' =
     Inr \<lparr>modified_html = ''<img src=\"data:image/gif;base64,AA=\">'',
          final = \<lparr>image_count = 1, written = [],
                    console = [Extracting, ErrorExtracting 1, TotalExtracted 1]\<rparr>\<rparr> \<and>
   extract_base64_images std_env ''<img src=\"data:image/gif;base64,AA==\">'' ''images'' =
     Inr \<lparr>modified_html = ''<img src=\"./images/image_0001.gif\">'',
          final = \<lparr>image_count = 1, written = [(''images/image_0001.gif'', [0])],
                    console = [Extracting, Extracted ''image_0001.gif'' 1, TotalExtracted 1]\<rparr>\<rparr>"
  by code_simp

text \<open>
  Claim C4. The total printed at the end is the counter, which counts every match. For a
  text with one match whose payload does not decode, no file is written and the line
  printed is \<open>Total images extracted: 1\<close>.
\<close>

theorem total_counts_failed_match:
  "extract_base64_images std_env ''<img src=\"data:image/png;base64,A\">'' ''images'' =
     Inr \<lparr>modified_html = ''<img src=\"data:image/png;base64,A\">'',
          final = \<lparr>image_count = 1, written = [],
                    console = [Extracting, ErrorExtracting 1, TotalExtracted 1]\<rparr>\<rparr>"
  by code_simp

text \<open>
  Claim C8, as the script has it. Without an output file argument, when the input
  exists and can be read, the extractor returns and the output file can be written,
  the text is written to \<open><stem>_optimized<suffix>\<close>, where stem and suffix together
  are the last component of the input path. That name has no slash in it: it is a bare
  file name, whose parent is \<open>.\<close>, the working directory of the process, wherever the
  input file lies.
\<close>

theorem default_output_in_working_directory:
  assumes "path_exists fe input_file" "read_text fe input_file = Some html"
    and "extract_base64_images e html ''images'' = Inr r"
    and "can_write e (default_output_file input_file)"
  shows "html_written (process_html_file fe e input_file None) =
           Some (path_stem input_file @ ''_optimized'' @ path_suffix input_file, modified_html r) \<and>
         path_stem input_file @ path_suffix input_file = path_name input_file \<and>
         CHR ''/'' \<notin> set (path_stem input_file @ ''_optimized'' @ path_suffix input_file) \<and>
         path_parent (path_stem input_file @ ''_optimized'' @ path_suffix input_file) = ''.''"
proof -
  have "html_written (process_html_file fe e input_file None) =
           Some (default_output_file input_file, modified_html r)"
    using assms by (simp add: process_html_file_def Let_def)
  moreover note stem_suffix_name [of input_file] default_output_no_slash [of input_file]
    path_parent_bare [OF default_output_no_slash [of input_file]]
  ultimately show ?thesis
    by (simp add: default_output_file_def)
qed

text \<open>The input \<open>docs/page.html\<close>, in a file system that holds this one file.\<close>

theorem default_output_in_working_directory_witness:
  "html_written (process_html_file (single_file ''docs/page.html'' ''<p>hi</p>'') std_env
                   ''docs/page.html'' None) =
     Some (''page_optimized.html'', ''<p>hi</p>'') \<and>
   path_stem ''docs/page.html'' @ path_suffix ''docs/page.html'' = path_name ''docs/page.html'' \<and>
   path_parent ''page_optimized.html'' = ''.''"
proof -
  have ex: "path_exists (single_file ''docs/page.html'' ''<p>hi</p>'') ''docs/page.html''"
    and rd: "read_text (single_file ''docs/page.html'' ''<p>hi</p>'') ''docs/page.html'' = Some ''<p>hi</p>''"
    by (simp_all add: single_file_def)
  have run: "extract_base64_images std_env ''<p>hi</p>'' ''images'' =
               Inr \<lparr>modified_html = ''<p>hi</p>'',
                    final = \<lparr>image_count = 0, written = [],
                              console = [Extracting, TotalExtracted 0]\<rparr>\<rparr>"
    by code_simp
  have wr: "can_write std_env (default_output_file ''docs/page.html'')"
    by (simp add: std_env_def)
  have name: "path_stem ''docs/page.html'' @ ''_optimized'' @ path_suffix ''docs/page.html'' =
                ''page_optimized.html''"
    by code_simp
  from default_output_in_working_directory [OF ex rd run wr]
  show ?thesis
    unfolding name by simp
qed

text \<open>
  Claim C8 places the output beside the input. For the input \<open>docs/page.html\<close> the
  output is \<open>page_optimized.html\<close>, in the working directory and not in \<open>docs\<close>.
\<close>

theorem output_directory_counterexample:
  "html_written (process_html_file (single_file ''docs/page.html'' ''<p>hi</p>'') std_env
                   ''docs/page.html'' None) =
     Some (''page_optimized.html'', ''<p>hi</p>'') \<and>
   path_parent ''page_optimized.html'' = ''.'' \<and>
   path_parent ''docs/page.html'' = ''docs'' \<and>
   path_parent ''page_optimized.html'' \<noteq> path_parent ''docs/page.html''"
  by code_simp

end
